theory Spec2Isabelle
  imports Main
begin

section \<open>Text: Python strings over the code points below 256\<close>

text \<open>
  A Python \<open>str\<close> is a sequence of code points. The model keeps the code points
  0 to 255, one \<open>char\<close> each, with the classes Python gives them:
  \<open>str.isspace\<close> (used by \<open>str.split()\<close> and by \<open>\s\<close>), the decimal digits of
  \<open>\d\<close>, the word characters of \<open>\w\<close> and \<open>\b\<close> (alphanumeric or underscore),
  and the case mapping of \<open>str.lower()\<close>.
\<close>

definition code_point :: "char \<Rightarrow> nat" where
  "code_point c = of_char c"

definition isspace :: "char \<Rightarrow> bool" where
  "isspace c = (let n = code_point c in
     (9 \<le> n \<and> n \<le> 13) \<or> (28 \<le> n \<and> n \<le> 32) \<or> n = 133 \<or> n = 160)"

definition isdecimal :: "char \<Rightarrow> bool" where
  "isdecimal c = (let n = code_point c in 48 \<le> n \<and> n \<le> 57)"

definition isalnum :: "char \<Rightarrow> bool" where
  "isalnum c = (let n = code_point c in
     (48 \<le> n \<and> n \<le> 57) \<or> (65 \<le> n \<and> n \<le> 90) \<or> (97 \<le> n \<and> n \<le> 122)
     \<or> n = 170 \<or> n = 178 \<or> n = 179 \<or> n = 181 \<or> n = 185 \<or> n = 186
     \<or> (188 \<le> n \<and> n \<le> 190)
     \<or> (192 \<le> n \<and> n \<le> 214) \<or> (216 \<le> n \<and> n \<le> 246) \<or> 248 \<le> n)"

definition isword :: "char \<Rightarrow> bool" where
  "isword c = (isalnum c \<or> c = CHR ''_'')"

definition lower_char :: "char \<Rightarrow> char" where
  "lower_char c = (let n = code_point c in
     if (65 \<le> n \<and> n \<le> 90) \<or> (192 \<le> n \<and> n \<le> 222 \<and> n \<noteq> 215)
     then char_of (n + 32) else c)"

definition lower :: "string \<Rightarrow> string" where
  "lower s = map lower_char s"

text \<open>
  \<open>str.split()\<close> without a separator: the maximal runs of non-whitespace characters,
  in order; leading, trailing and repeated whitespace gives no empty token.
  \<open>split_acc cur s\<close> scans \<open>s\<close> with the current token \<open>cur\<close> kept reversed.
\<close>

fun split_acc :: "string \<Rightarrow> string \<Rightarrow> string list" where
  "split_acc cur [] = (if cur = [] then [] else [rev cur])"
| "split_acc cur (c # cs) =
     (if isspace c then (if cur = [] then split_acc [] cs else rev cur # split_acc [] cs)
      else split_acc (c # cur) cs)"

definition split :: "string \<Rightarrow> string list" where
  "split s = split_acc [] s"

text \<open>\<open>range(n)\<close> for an integer \<open>n\<close>: empty when \<open>n \<le> 0\<close>.\<close>

definition range_py :: "int \<Rightarrow> nat list" where
  "range_py n = [0..<nat n]"

text \<open>The slice \<open>xs[i:j]\<close> for indices \<open>0 \<le> i\<close>, \<open>0 \<le> j\<close>; it is clipped to the list.\<close>

definition slice :: "'a list \<Rightarrow> nat \<Rightarrow> nat \<Rightarrow> 'a list" where
  "slice xs i j = take (j - i) (drop i xs)"

section \<open>FoxNewsSearch.phrase_counter\<close>

text \<open>
  \<^verbatim>\<open>
  text_words = text.lower().split()
  phrase_words = phrase.lower().split()
  return sum(1 for i in range(len(text_words) - len(phrase_words) + 1)
             if text_words[i:i + len(phrase_words)] == phrase_words)
  \<close>
\<close>

definition phrase_counter :: "string \<Rightarrow> string \<Rightarrow> int" where
  "phrase_counter text phrase =
     (let text_words = split (lower text);
          phrase_words = split (lower phrase)
      in sum_list (map (\<lambda>i. 1)
           (filter (\<lambda>i. slice text_words i (i + length phrase_words) = phrase_words)
              (range_py (int (length text_words) - int (length phrase_words) + 1)))))"

text \<open>
  The specification's reading: the phrase's tokens occur in the text's tokens at
  start position \<open>i\<close> when they fit there and agree token by token.
\<close>

definition occurs_at :: "string list \<Rightarrow> string list \<Rightarrow> nat \<Rightarrow> bool" where
  "occurs_at tw pw i \<longleftrightarrow>
     i + length pw \<le> length tw \<and> (\<forall>k<length pw. tw ! (i + k) = pw ! k)"

definition tokens :: "string \<Rightarrow> string list" where
  "tokens s = split (lower s)"

section \<open>FoxNewsSearch.contains_money\<close>

text \<open>
  The part of Python's regular expressions that the money pattern uses: a character
  or class, a bracket class, sequence, alternative, \<open>+\<close>, \<open>*\<close>, \<open>?\<close> and the
  word boundary \<open>\b\<close>.
\<close>

datatype cset = CChar char | CDigit | CSpace

fun in_cset :: "cset \<Rightarrow> char \<Rightarrow> bool" where
  "in_cset (CChar a) c = (c = a)"
| "in_cset CDigit c = isdecimal c"
| "in_cset CSpace c = isspace c"

datatype rx = Eps | Sym cset | Bracket "cset list" | Seq rx rx | Alt rx rx
  | Plus rx | Star rx | Opt rx | WordB

text \<open>
  \<open>\b\<close> matches at position \<open>i\<close> when exactly one of the characters before and
  after the position is a word character (outside the text counts as none).
\<close>

definition word_boundary :: "string \<Rightarrow> nat \<Rightarrow> bool" where
  "word_boundary s i =
     ((0 < i \<and> i \<le> length s \<and> isword (s ! (i - 1))) \<noteq> (i < length s \<and> isword (s ! i)))"

text \<open>
  \<open>ends r s i\<close> lists the positions at which a match of \<open>r\<close> that starts at
  position \<open>i\<close> of \<open>s\<close> can end. \<open>star_ends f n i\<close> iterates the body \<open>f\<close> at
  most \<open>n\<close> times, each iteration consuming at least one character.
\<close>

fun star_ends :: "(nat \<Rightarrow> nat list) \<Rightarrow> nat \<Rightarrow> nat \<Rightarrow> nat list" where
  "star_ends f 0 i = [i]"
| "star_ends f (Suc n) i =
     concat (map (\<lambda>j. if i < j then star_ends f n j else []) (f i)) @ [i]"

primrec ends :: "rx \<Rightarrow> string \<Rightarrow> nat \<Rightarrow> nat list" where
  "ends Eps s i = [i]"
| "ends (Sym a) s i = (if i < length s \<and> in_cset a (s ! i) then [Suc i] else [])"
| "ends (Bracket as) s i =
     (if i < length s \<and> list_ex (\<lambda>a. in_cset a (s ! i)) as then [Suc i] else [])"
| "ends (Seq r1 r2) s i = concat (map (\<lambda>j. ends r2 s j) (ends r1 s i))"
| "ends (Alt r1 r2) s i = ends r1 s i @ ends r2 s i"
| "ends (Plus r) s i =
     concat (map (\<lambda>j. star_ends (\<lambda>k. ends r s k) (length s) j) (ends r s i))"
| "ends (Star r) s i = star_ends (\<lambda>k. ends r s k) (length s) i"
| "ends (Opt r) s i = ends r s i @ [i]"
| "ends WordB s i = (if word_boundary s i then [i] else [])"

primrec lits :: "string \<Rightarrow> rx" where
  "lits [] = Eps"
| "lits (c # cs) = Seq (Sym (CChar c)) (lits cs)"

text \<open>
  \<^verbatim>\<open>money_pattern = r'\$[\d,]+(?:\.\d+)?|\b\d+\s*(?:dollars|USD)\b'\<close>:
  the two alternatives of the pattern, then the pattern.
\<close>

definition dollar_alt :: rx where
  "dollar_alt = Seq (Sym (CChar CHR ''$''))
           (Seq (Plus (Bracket [CDigit, CChar CHR '','']))
                (Opt (Seq (Sym (CChar CHR ''.'')) (Plus (Sym CDigit)))))"

definition word_alt :: rx where
  "word_alt = Seq WordB
           (Seq (Plus (Sym CDigit))
             (Seq (Star (Sym CSpace))
               (Seq (Alt (lits ''dollars'') (lits ''USD'')) WordB)))"

definition money_pattern :: rx where
  "money_pattern = Alt dollar_alt word_alt"

text \<open>
  \<open>re.findall(pattern, text)\<close> is a non-empty list exactly when the pattern matches
  at some start position of the text, which is all that \<open>bool(...)\<close> reads.
\<close>

definition matches_somewhere :: "rx \<Rightarrow> string \<Rightarrow> bool" where
  "matches_somewhere r s = list_ex (\<lambda>i. ends r s i \<noteq> []) [0..<Suc (length s)]"

text \<open>
  \<^verbatim>\<open>return bool(re.findall(money_pattern, text))\<close>
\<close>

definition contains_money :: "string \<Rightarrow> bool" where
  "contains_money text = matches_somewhere money_pattern text"

text \<open>
  The vocabulary of the characterisation. \<open>run P s i j\<close>: the characters of \<open>s\<close>
  from \<open>i\<close> up to \<open>j\<close> (excluded) all satisfy \<open>P\<close>. \<open>word_at s k w\<close>: \<open>w\<close> occurs
  in \<open>s\<close> at \<open>k\<close>. \<open>dollar_then P s\<close>: some \<open>$\<close> is immediately followed by a
  character in \<open>P\<close>. \<open>number_then_word s\<close>: digits that start at a word boundary,
  then optional whitespace, then \<open>dollars\<close> or \<open>USD\<close> ending at a word boundary.
  \<open>within\<close> is \<open>run\<close> with a bound on its length.
\<close>

definition run :: "(char \<Rightarrow> bool) \<Rightarrow> string \<Rightarrow> nat \<Rightarrow> nat \<Rightarrow> bool" where
  "run P s i j = (i \<le> j \<and> j \<le> length s \<and> list_all (\<lambda>x. P (s ! x)) [i..<j])"

definition word_at :: "string \<Rightarrow> nat \<Rightarrow> string \<Rightarrow> bool" where
  "word_at s k w = (k + length w \<le> length s \<and> take (length w) (drop k s) = w)"

definition dollar_then :: "(char \<Rightarrow> bool) \<Rightarrow> string \<Rightarrow> bool" where
  "dollar_then P s =
     list_ex (\<lambda>i. s ! i = CHR ''$'' \<and> Suc i < length s \<and> P (s ! Suc i)) [0..<length s]"

definition number_then_word_from :: "string \<Rightarrow> nat \<Rightarrow> nat \<Rightarrow> nat \<Rightarrow> bool" where
  "number_then_word_from s i j k =
     (word_boundary s i \<and> i < j \<and> run isdecimal s i j \<and> run isspace s j k
      \<and> (word_at s k ''dollars'' \<and> word_boundary s (k + 7)
         \<or> word_at s k ''USD'' \<and> word_boundary s (k + 3)))"

definition number_then_word :: "string \<Rightarrow> bool" where
  "number_then_word s =
     list_ex (\<lambda>i. list_ex (\<lambda>j. list_ex (\<lambda>k. number_then_word_from s i j k)
        [j..<Suc (length s)]) [i..<Suc (length s)]) [0..<Suc (length s)]"

text \<open>
  The specification's wording: a \<open>$\<close> immediately followed by digits, or a bare
  number followed by \<open>dollars\<close> or \<open>USD\<close> as a whole word.
\<close>

definition money_as_specified :: "string \<Rightarrow> bool" where
  "money_as_specified s = (dollar_then isdecimal s \<or> number_then_word s)"

definition within :: "(char \<Rightarrow> bool) \<Rightarrow> string \<Rightarrow> nat \<Rightarrow> nat \<Rightarrow> nat \<Rightarrow> bool" where
  "within P s n i j \<longleftrightarrow>
     i \<le> j \<and> j \<le> i + n \<and> (\<forall>x. i \<le> x \<and> x < j \<longrightarrow> x < length s \<and> P (s ! x))"

section \<open>Errors\<close>

text \<open>The exceptions of Python that the modelled code can raise.\<close>

datatype error = OverflowError | TypeError | NameError string | AttributeError | ValueError
  | NoSuchElementException | PlaywrightError | RequestException

section \<open>DateCalculator.calculate\<close>

text \<open>
  A naive \<open>datetime\<close>: a date of the proleptic Gregorian calendar (years 1 to 9999)
  and a time of day. \<open>datetime.now()\<close> gives one; the model takes it as an input.
\<close>

record datetime =
  year :: nat
  month :: nat
  day :: nat
  hour :: nat
  minute :: nat
  second :: nat
  microsecond :: nat

definition is_leap :: "nat \<Rightarrow> bool" where
  "is_leap y = (y mod 4 = 0 \<and> (y mod 100 \<noteq> 0 \<or> y mod 400 = 0))"

definition days_in_month :: "nat \<Rightarrow> nat \<Rightarrow> nat" where
  "days_in_month y m =
     (if m = 2 then (if is_leap y then 29 else 28)
      else if m = 4 \<or> m = 6 \<or> m = 9 \<or> m = 11 then 30 else 31)"

definition valid_datetime :: "datetime \<Rightarrow> bool" where
  "valid_datetime d = (1 \<le> year d \<and> year d \<le> 9999 \<and> 1 \<le> month d \<and> month d \<le> 12
     \<and> 1 \<le> day d \<and> day d \<le> days_in_month (year d) (month d)
     \<and> hour d < 24 \<and> minute d < 60 \<and> second d < 60 \<and> microsecond d < 1000000)"

text \<open>
  \<open>d - timedelta(days=n)\<close> is the date \<open>n\<close> days before \<open>d\<close>, the time of day kept;
  Python raises \<open>OverflowError\<close> when that date is before 0001-01-01.
  \<open>prev_day\<close> is one day back, \<open>minus_days\<close> is \<open>n\<close> of them.
\<close>

definition prev_day :: "datetime \<Rightarrow> error + datetime" where
  "prev_day d =
     (if 1 < day d then Inr (d\<lparr>day := day d - 1\<rparr>)
      else if 1 < month d
        then Inr (d\<lparr>month := month d - 1, day := days_in_month (year d) (month d - 1)\<rparr>)
      else if 1 < year d then Inr (d\<lparr>year := year d - 1, month := 12, day := 31\<rparr>)
      else Inl OverflowError)"

fun minus_days :: "datetime \<Rightarrow> nat \<Rightarrow> error + datetime" where
  "minus_days d 0 = Inr d"
| "minus_days d (Suc n) =
     (case prev_day d of Inl e \<Rightarrow> Inl e | Inr d' \<Rightarrow> minus_days d' n)"

text \<open>
  \<^verbatim>\<open>
  def calculate(actual_date, months):
      start_date = actual_date.replace(day=1)
      for _ in range(months):
          start_date -= timedelta(days=start_date.day)
      return start_date, actual_date
  \<close>
  \<open>calculate_loop k\<close> is the loop with \<open>k\<close> iterations left; \<open>range(months)\<close> is
  empty for a negative \<open>months\<close>.
\<close>

fun calculate_loop :: "nat \<Rightarrow> datetime \<Rightarrow> error + datetime" where
  "calculate_loop 0 start_date = Inr start_date"
| "calculate_loop (Suc k) start_date =
     (case minus_days start_date (day start_date) of
        Inl e \<Rightarrow> Inl e
      | Inr start_date' \<Rightarrow> calculate_loop k start_date')"

definition calculate :: "datetime \<Rightarrow> int \<Rightarrow> error + (datetime \<times> datetime)" where
  "calculate actual_date months =
     (let start_date = actual_date\<lparr>day := 1\<rparr> in
      case calculate_loop (nat months) start_date of
        Inl e \<Rightarrow> Inl e
      | Inr start_date' \<Rightarrow> Inr (start_date', actual_date))"

text \<open>The order \<open>a <= b\<close> of naive datetimes: lexicographic on the fields.\<close>

definition dt_le :: "datetime \<Rightarrow> datetime \<Rightarrow> bool" where
  "dt_le a b =
     (year a < year b \<or> (year a = year b \<and>
     (month a < month b \<or> (month a = month b \<and>
     (day a < day b \<or> (day a = day b \<and>
     (hour a < hour b \<or> (hour a = hour b \<and>
     (minute a < minute b \<or> (minute a = minute b \<and>
     (second a < second b \<or> (second a = second b \<and>
      microsecond a \<le> microsecond b))))))))))))"

text \<open>
  Months counted from January of year 1: the month \<open>k\<close> months before the month of
  \<open>d\<close> has index \<open>month_index d - k\<close>. \<open>wf_month\<close>: year and month are in range.
  \<open>same_time\<close>: the same time of day.
\<close>

definition month_index :: "datetime \<Rightarrow> nat" where
  "month_index d = 12 * (year d - 1) + (month d - 1)"

text \<open>A date at 10:30:00, for the concrete runs below.\<close>

definition datetime_of :: "nat \<Rightarrow> nat \<Rightarrow> nat \<Rightarrow> datetime" where
  "datetime_of y m d = \<lparr>year = y, month = m, day = d, hour = 10, minute = 30, second = 0, microsecond = 0\<rparr>"

definition wf_month :: "datetime \<Rightarrow> bool" where
  "wf_month d = (1 \<le> year d \<and> 1 \<le> month d \<and> month d \<le> 12)"

definition same_time :: "datetime \<Rightarrow> datetime \<Rightarrow> bool" where
  "same_time a b = (hour a = hour b \<and> minute a = minute b \<and> second a = second b
     \<and> microsecond a = microsecond b)"

section \<open>The world of a run\<close>

text \<open>
  What a run reads and changes, as explicit state. A payload value is an integer, a
  string or \<open>None\<close>. The \<open>world\<close> holds the files under the output directory, the
  records written by \<open>logging\<close> (the format string of each call), the browser
  actions performed and the image requests sent (URL and destination path).
  \<open>logging.basicConfig(level=logging.INFO)\<close> drops the \<open>debug\<close> records.
\<close>

datatype pyval = PInt int | PStr string | PNone

datatype level = INFO | ERROR

datatype action = Goto | Click string | Fill string string | Close

datatype cell = CStr string | CInt int | CBool bool

datatype file_content = Bytes string | Sheet "cell list list"

record world =
  files :: "string \<rightharpoonup> file_content"
  logged :: "(level \<times> string) list"
  actions :: "action list"
  fetches :: "(string \<times> string) list"

definition logging_info :: "string \<Rightarrow> world \<Rightarrow> world" where
  "logging_info msg w = w\<lparr>logged := logged w @ [(INFO, msg)]\<rparr>"

definition logging_error :: "string \<Rightarrow> world \<Rightarrow> world" where
  "logging_error msg w = w\<lparr>logged := logged w @ [(ERROR, msg)]\<rparr>"

definition logging_debug :: "string \<Rightarrow> world \<Rightarrow> world" where
  "logging_debug msg w = w"

text \<open>\<open>str(n)\<close> of an integer, and the \<open>{...}\<close> of an f-string.\<close>

function str_nat :: "nat \<Rightarrow> string" where
  "str_nat n = (if n < 10 then [char_of (48 + n)] else str_nat (n div 10) @ [char_of (48 + n mod 10)])"
  by pat_completeness auto
termination
  by (relation "measure (\<lambda>n. n)") auto

definition str_int :: "int \<Rightarrow> string" where
  "str_int i = (if i < 0 then CHR ''-'' # str_nat (nat (- i)) else str_nat (nat i))"

fun str_pyval :: "pyval \<Rightarrow> string" where
  "str_pyval (PInt i) = str_int i"
| "str_pyval (PStr s) = s"
| "str_pyval PNone = ''None''"

text \<open>\<open>output_dir / filename\<close> of \<open>pathlib.Path\<close>.\<close>

definition path_join :: "string \<Rightarrow> string \<Rightarrow> string" where
  "path_join dir name = dir @ ''/'' @ name"

section \<open>ExcelCreator\<close>

text \<open>
  \<^verbatim>\<open>
  def __init__(self, filename):
      self.filename = filename; self.workbook = Workbook(); self.sheet = self.workbook.active
  def create_headers(self, headers): self.sheet.append(headers)
  def add_row(self, data): self.sheet.append(data)
  def save_file(self):
      output_dir = Path(os.environ.get('ROBOT_ARTIFACTS'))
      output_path = output_dir / self.filename
      self.workbook.save(filename=output_path)
  \<close>
  The sheet is the list of its rows; \<open>append\<close> adds a row below the last one.
  \<open>robot_artifacts\<close> is the value of the environment variable, \<open>None\<close> when it
  is not set: then \<open>Path(None)\<close> raises \<open>TypeError\<close>.
\<close>

record excel_creator =
  filename :: string
  sheet :: "cell list list"

definition ExcelCreator :: "string \<Rightarrow> excel_creator" where
  "ExcelCreator fname = \<lparr>filename = fname, sheet = []\<rparr>"

definition create_headers :: "excel_creator \<Rightarrow> cell list \<Rightarrow> world \<Rightarrow> excel_creator \<times> world" where
  "create_headers self headers w =
     (self\<lparr>sheet := sheet self @ [headers]\<rparr>, logging_info ''Creating Excel headers: %s'' w)"

definition add_row :: "excel_creator \<Rightarrow> cell list \<Rightarrow> world \<Rightarrow> excel_creator \<times> world" where
  "add_row self data w =
     (self\<lparr>sheet := sheet self @ [data]\<rparr>, logging_info ''Adding row to Excel: %s'' w)"

definition save_file :: "string option \<Rightarrow> excel_creator \<Rightarrow> world \<Rightarrow> world \<times> (error + unit)" where
  "save_file robot_artifacts self w =
     (case robot_artifacts of
        None \<Rightarrow> (w, Inl TypeError)
      | Some output_dir \<Rightarrow>
          (let output_path = path_join output_dir (filename self);
               w1 = logging_info ''Saving Excel file to %s'' w
           in (w1\<lparr>files := (files w1)(output_path \<mapsto> Sheet (sheet self))\<rparr>, Inr ())))"

section \<open>FoxNewsSearch.download_image\<close>

text \<open>
  \<^verbatim>\<open>
  output_dir = Path(os.environ.get('ROBOT_ARTIFACTS'))
  output_path = output_dir / filename
  logging.info("Downloading image from %s to %s", image_url, output_path)
  response = requests.get(image_url, stream=True)
  if response.status_code == 200:
      with open(output_path, 'wb') as f:
          shutil.copyfileobj(response.raw, f)
      logging.info("Image downloaded successfully.")
  else:
      logging.error("Error downloading image.")
  \<close>
  \<open>requests_get\<close> is the network: the response to a GET of a URL, or the exception
  that \<open>requests.get\<close> raises.
\<close>

record response =
  status_code :: int
  raw :: string

definition download_image ::
  "string option \<Rightarrow> (string \<Rightarrow> error + response) \<Rightarrow> string \<Rightarrow> string \<Rightarrow> world
     \<Rightarrow> world \<times> (error + unit)" where
  "download_image robot_artifacts requests_get image_url fname w =
     (case robot_artifacts of
        None \<Rightarrow> (w, Inl TypeError)
      | Some output_dir \<Rightarrow>
          (let output_path = path_join output_dir fname;
               w1 = logging_info ''Downloading image from %s to %s'' w;
               w2 = w1\<lparr>fetches := fetches w1 @ [(image_url, output_path)]\<rparr>
           in case requests_get image_url of
                Inl e \<Rightarrow> (w2, Inl e)
              | Inr response \<Rightarrow>
                  if status_code response = 200
                  then (logging_info ''Image downloaded successfully.''
                          (w2\<lparr>files := (files w2)(output_path \<mapsto> Bytes (raw response))\<rparr>), Inr ())
                  else (logging_error ''Error downloading image.'' w2, Inr ())))"

section \<open>minimal_task\<close>

text \<open>
  Line 261 of the source is indented by three spaces, which Python rejects when it
  compiles the module; the model reads the line at the indentation of the function
  body, as the statements around it are.

  An article element is the result of its four \<open>find_element\<close> lookups: the text
  or attribute found, or \<open>None\<close> when the lookup raises
  \<open>NoSuchElementException\<close>.

  \<open>minimal_task\<close> assigns neither \<open>driver\<close> nor \<open>i\<close>, so Python reads both
  from the module's global names when the statement runs. \<open>globals\<close> holds these
  two: for \<open>driver\<close> the articles its \<open>find_elements\<close> returns, for \<open>i\<close> its
  value, \<open>None\<close> for a name that is not bound. The module as written binds
  neither: \<open>source_globals\<close>.
\<close>

record article =
  title_text :: "string option"
  image_src :: "string option"
  description_text :: "string option"
  date_text :: "string option"

record globals =
  g_driver :: "article list option"
  g_i :: "pyval option"

definition source_globals :: globals where
  "source_globals = \<lparr>g_driver = None, g_i = None\<rparr>"

text \<open>
  The body of the loop over the articles (source lines 230 to 258), then the loop.
  \<^verbatim>\<open>
  for article in articles:
      title_element = article.find_element(By.XPATH, ".//h2/a")
      ... image_element, description_element, date_element ...
      title = title_element.text
      image_src = image_element.get_attribute("src")
      description = description_element.text
      date = date_element.text
      phrase_counter = (FoxNewsSearch.phrase_counter(title, phrase_to_search) +
                        FoxNewsSearch.phrase_counter(description, phrase_to_search))
      contains_money = FoxNewsSearch.contains_money(title + description)
      FoxNewsSearch.download_image(image_src, f"img_{i}.jpg")
      data = [title, date, description, f"img_{i}.jpg", phrase_counter, contains_money]
      excel_creator.add_row(data)
      logging.debug("Processed article: %s", title)
  \<close>
  A phrase that is not a string has no \<open>lower\<close>: \<open>AttributeError\<close>.
\<close>

definition process_article ::
  "string option \<Rightarrow> (string \<Rightarrow> error + response) \<Rightarrow> globals \<Rightarrow> pyval \<Rightarrow> article
     \<Rightarrow> excel_creator \<times> world \<Rightarrow> (excel_creator \<times> world) \<times> (error + unit)" where
  "process_article robot_artifacts requests_get g phrase_to_search a xw =
     (case (title_text a, image_src a, description_text a, date_text a) of
        (Some title, Some src, Some description, Some date) \<Rightarrow>
          (case phrase_to_search of
             PStr phrase \<Rightarrow>
               (let count = phrase_counter title phrase + phrase_counter description phrase;
                    money = contains_money (title @ description)
                in (case g_i g of
                      None \<Rightarrow> (xw, Inl (NameError ''i''))
                    | Some i \<Rightarrow>
                        (let fname = ''img_'' @ str_pyval i @ ''.jpg'' in
                         (case download_image robot_artifacts requests_get src fname (snd xw) of
                            (w1, Inl e) \<Rightarrow> ((fst xw, w1), Inl e)
                          | (w1, Inr u) \<Rightarrow>
                              (let data = [CStr title, CStr date, CStr description, CStr fname,
                                           CInt count, CBool money];
                                   xw2 = add_row (fst xw) data w1
                               in ((fst xw2, logging_debug ''Processed article: %s'' (snd xw2)),
                                   Inr ()))))))
           | PInt n \<Rightarrow> (xw, Inl AttributeError)
           | PNone \<Rightarrow> (xw, Inl AttributeError))
      | other \<Rightarrow> (xw, Inl NoSuchElementException))"

fun article_loop ::
  "string option \<Rightarrow> (string \<Rightarrow> error + response) \<Rightarrow> globals \<Rightarrow> pyval \<Rightarrow> article list
     \<Rightarrow> excel_creator \<times> world \<Rightarrow> (excel_creator \<times> world) \<times> (error + unit)" where
  "article_loop robot_artifacts requests_get g phrase_to_search [] xw = (xw, Inr ())"
| "article_loop robot_artifacts requests_get g phrase_to_search (a # articles) xw =
     (case process_article robot_artifacts requests_get g phrase_to_search a xw of
        (xw1, Inl e) \<Rightarrow> (xw1, Inl e)
      | (xw1, Inr u) \<Rightarrow> article_loop robot_artifacts requests_get g phrase_to_search articles xw1)"

text \<open>
  The browser: \<open>'p\<close> is the state of the page. \<open>goto\<close> is the page that
  \<open>browser.goto(secrets['url'])\<close> opens, or the error raised by it, by
  \<open>browser.configure\<close> or by \<open>vault.get_secret\<close>. \<open>click\<close> and \<open>fill\<close> give the
  page after the action or the error raised; \<open>is_hidden\<close> and \<open>inner_text\<close> read
  the page.
\<close>

record 'p browser =
  goto :: "error + 'p"
  click :: "string \<Rightarrow> 'p \<Rightarrow> error + 'p"
  fill :: "string \<Rightarrow> string \<Rightarrow> 'p \<Rightarrow> error + 'p"
  is_hidden :: "string \<Rightarrow> 'p \<Rightarrow> bool"
  inner_text :: "string \<Rightarrow> 'p \<Rightarrow> error + string"

fun perform :: "'p browser \<Rightarrow> action \<Rightarrow> 'p \<Rightarrow> error + 'p" where
  "perform b (Click selector) page = click b selector page"
| "perform b (Fill selector txt) page = fill b selector txt page"
| "perform b Goto page = goto b"
| "perform b Close page = Inr page"

fun run_actions :: "'p browser \<Rightarrow> action list \<Rightarrow> 'p \<Rightarrow> world \<Rightarrow> world \<times> (error + 'p)" where
  "run_actions b [] page w = (w, Inr page)"
| "run_actions b (a # as) page w =
     (let w1 = w\<lparr>actions := actions w @ [a]\<rparr> in
      case perform b a page of
        Inl e \<Rightarrow> (w1, Inl e)
      | Inr page1 \<Rightarrow> run_actions b as page1 w1)"

text \<open>The selectors: \<open>quoted v\<close> is \<open>v\<close> between single quotes.\<close>

definition quoted :: "string \<Rightarrow> string" where
  "quoted s = [CHR 0x27] @ s @ [CHR 0x27]"

definition li_option :: "string \<Rightarrow> string" where
  "li_option v = ''//li[@id='' @ quoted v @ '' and @class='' @ quoted v @ '' and .='' @ quoted v @ '']''"

definition li_id :: "string \<Rightarrow> string" where
  "li_id v = ''//li[@id='' @ quoted v @ '']''"

text \<open>\<^verbatim>\<open>f"0{n}" if n < 10 else str(n)\<close>\<close>

definition two_digits :: "int \<Rightarrow> string" where
  "two_digits n = (if n < 10 then ''0'' @ str_int n else str_int n)"

text \<open>Source lines 178 to 180: the search.\<close>

definition search_actions :: "string \<Rightarrow> action list" where
  "search_actions phrase_category_search =
     [Click ''//div[@class='search-toggle tablet-desktop']/a[@class='js-focus-search']'',
      Fill ''//input[@type='text' and (@aria-label='search foxnews.com' or @placeholder='Search foxnews.com') and @name='q']''
        phrase_category_search,
      Click ''//input[@type='submit' and @aria-label='submit search' and @class='resp_site_submit']'']"

text \<open>
  Source lines 153 to 161 and 187 to 199: the values read from the two dates, their
  formatting, and the twelve clicks that select the date range.
\<close>

definition date_range_actions :: "datetime \<Rightarrow> datetime \<Rightarrow> action list" where
  "date_range_actions start_date actual_date =
     (let past_month = int (month start_date); past_year = int (year start_date);
          current_month = int (month actual_date); current_day = int (day actual_date);
          current_year = int (year actual_date);
          year_index = (current_year - past_year) + 1;
          past_month_formatted = two_digits past_month;
          current_month_formatted = two_digits current_month;
          current_day_formatted = two_digits current_day;
          year_index_formatted = two_digits year_index
      in [Click ''//*[@id='wrapper']/div[2]/div[1]/div/div[2]/div[3]/div[1]/div[1]'',
          Click (li_option past_month_formatted),
          Click ''//*[@id='wrapper']/div[2]/div[1]/div/div[2]/div[3]/div[1]/div[2]/button'',
          Click (li_option ''01''),
          Click ''//*[@id='wrapper']/div[2]/div[1]/div/div[2]/div[3]/div[1]/div[3]/button'',
          Click (li_id ''2024''),
          Click ''//*[@id='wrapper']/div[2]/div[1]/div/div[2]/div[3]/div[2]/div[1]/button'',
          Click (li_option current_month_formatted),
          Click ''//*[@id='wrapper']/div[2]/div[1]/div/div[2]/div[3]/div[2]/div[2]/button'',
          Click (li_option current_day_formatted),
          Click ''//*[@id='wrapper']/div[2]/div[1]/div/div[2]/div[3]/div[2]/div[3]/button'',
          Click (li_option year_index_formatted)])"

text \<open>
  \<^verbatim>\<open>
  while not page.is_hidden("//span[text()='Load More']"):
      page.click("//span[text()='Load More']")
      time.sleep(3)
  \<close>
  The loop may run forever: its result is an \<open>option\<close>, \<open>None\<close> when it does not
  return.
\<close>

definition load_more :: string where
  "load_more = ''//span[text()='Load More']''"

partial_function (option) load_more_loop ::
  "'p browser \<Rightarrow> 'p \<Rightarrow> world \<Rightarrow> (world \<times> (error + 'p)) option" where
  "load_more_loop b page w =
     (if is_hidden b load_more page then Some (w, Inr page)
      else (case click b load_more page of
              Inl e \<Rightarrow> Some (w\<lparr>actions := actions w @ [Click load_more]\<rparr>, Inl e)
            | Inr page1 \<Rightarrow> load_more_loop b page1 (w\<lparr>actions := actions w @ [Click load_more]\<rparr>)))"

text \<open>\<open>payload.get(key, default)\<close>.\<close>

definition payload_get :: "(string \<rightharpoonup> pyval) \<Rightarrow> string \<Rightarrow> pyval \<Rightarrow> pyval" where
  "payload_get payload key default_value =
     (case payload key of None \<Rightarrow> default_value | Some v \<Rightarrow> v)"

text \<open>
  \<open>int(text)\<close>: surrounding whitespace, an optional sign, then decimal digits with
  single underscores between them; otherwise \<open>ValueError\<close>.
\<close>

definition strip :: "string \<Rightarrow> string" where
  "strip s = rev (dropWhile isspace (rev (dropWhile isspace s)))"

fun no_double_underscore :: "string \<Rightarrow> bool" where
  "no_double_underscore (a # b # cs) =
     (\<not> (a = CHR ''_'' \<and> b = CHR ''_'') \<and> no_double_underscore (b # cs))"
| "no_double_underscore cs = True"

definition int_literal :: "string \<Rightarrow> bool" where
  "int_literal cs = (cs \<noteq> [] \<and> isdecimal (hd cs) \<and> isdecimal (last cs)
     \<and> list_all (\<lambda>c. isdecimal c \<or> c = CHR ''_'') cs \<and> no_double_underscore cs)"

definition digits_value :: "string \<Rightarrow> int" where
  "digits_value cs = foldl (\<lambda>acc c. 10 * acc + (int (code_point c) - 48)) 0 (filter isdecimal cs)"

definition py_int :: "string \<Rightarrow> error + int" where
  "py_int s =
     (let t = strip s;
          negative = (t \<noteq> [] \<and> hd t = CHR ''-'');
          body = (if t \<noteq> [] \<and> (hd t = CHR ''-'' \<or> hd t = CHR ''+'') then tl t else t)
      in if int_literal body
         then Inr (if negative then - digits_value body else digits_value body)
         else Inl ValueError)"

text \<open>Source lines 211 to 268: the report, once all results are loaded.\<close>

definition headers :: "cell list" where
  "headers = [CStr ''Title'', CStr ''Date'', CStr ''Description'', CStr ''Picture Filename'',
              CStr ''Count of Search Phrases'', CStr ''Contains Money'']"

definition extract_and_report ::
  "'p browser \<Rightarrow> string option \<Rightarrow> (string \<Rightarrow> error + response) \<Rightarrow> globals \<Rightarrow> pyval
     \<Rightarrow> 'p \<Rightarrow> world \<Rightarrow> world \<times> (error + unit)" where
  "extract_and_report b robot_artifacts requests_get g phrase_to_search page w0 =
     (let w1 = logging_info ''Finished loading news.'' w0 in
      (case inner_text b ''//div[@class='num-found']/span[2]/span'' page of
         Inl e \<Rightarrow> (w1, Inl e)
       | Inr t \<Rightarrow>
      (case py_int t of
         Inl e \<Rightarrow> (w1, Inl e)
       | Inr news_amount \<Rightarrow>
      (let w2 = logging_info ''Amount of news articles found: %d'' w1;
           w3 = logging_info ''Creating Excel table.'' w2;
           xw = create_headers (ExcelCreator ''data.xlsx'') headers w3
       in (case g_driver g of
             None \<Rightarrow> (snd xw, Inl (NameError ''driver''))
           | Some articles \<Rightarrow>
          (case article_loop robot_artifacts requests_get g phrase_to_search articles xw of
             (xw1, Inl e) \<Rightarrow> (snd xw1, Inl e)
           | (xw1, Inr u) \<Rightarrow>
          (let w6 = logging_info ''Completed processing all news articles.'' (snd xw1) in
           (case save_file robot_artifacts (fst xw1) w6 of
              (w7, Inl e) \<Rightarrow> (w7, Inl e)
            | (w7, Inr u) \<Rightarrow>
              (let w8 = logging_info ''Excel saved succesfully.'' w7;
                   w9 = w8\<lparr>actions := actions w8 @ [Close]\<rparr>
               in (logging_info ''RPA task completed.'' w9, Inr ()))))))))))"

text \<open>Source lines 163 to 209: opening the site, the search, the date range, the paging.\<close>

definition search_click :: action where
  "search_click = Click ''//div[@class='button']/a[text()='Search']''"

definition browse ::
  "'p browser \<Rightarrow> string \<Rightarrow> datetime \<Rightarrow> datetime \<Rightarrow> world \<Rightarrow> (world \<times> (error + 'p)) option" where
  "browse b phrase_category_search start_date actual_date w0 =
     (let w1 = logging_info ''Configuring browser for automation.'' w0;
          w2 = w1\<lparr>actions := actions w1 @ [Goto]\<rparr>
      in (case goto b of
            Inl e \<Rightarrow> Some (w2, Inl e)
          | Inr page \<Rightarrow>
      (case run_actions b (search_actions phrase_category_search) page
              (logging_info ''Performing search on the website.'' w2) of
            (w4, Inl e) \<Rightarrow> Some (w4, Inl e)
          | (w4, Inr page1) \<Rightarrow>
      (case run_actions b (date_range_actions start_date actual_date) page1
              (logging_info ''Selecting date range for the search.'' w4) of
            (w6, Inl e) \<Rightarrow> Some (w6, Inl e)
          | (w6, Inr page2) \<Rightarrow>
      (case run_actions b [search_click] page2
              (logging_info ''Starting search.'' w6) of
            (w8, Inl e) \<Rightarrow> Some (w8, Inl e)
          | (w8, Inr page3) \<Rightarrow>
              load_more_loop b page3
                (logging_info ''Entering the loop to load more news.'' w8))))))"

text \<open>
  Source lines 133 to 161. \<open>date_parameter < 0\<close> compares the payload value with an
  integer: for a string or \<open>None\<close> Python raises \<open>TypeError\<close>. \<open>minimal_task_run\<close>
  is the task from \<open>date_parameter -= 1\<close> on; the record that \<open>calculate\<close> logs is
  written there.
\<close>

definition minimal_task_run ::
  "'p browser \<Rightarrow> string option \<Rightarrow> (string \<Rightarrow> error + response) \<Rightarrow> globals \<Rightarrow> pyval
     \<Rightarrow> string \<Rightarrow> int \<Rightarrow> datetime \<Rightarrow> world \<Rightarrow> (world \<times> (error + unit)) option" where
  "minimal_task_run b robot_artifacts requests_get g phrase_to_search phrase_category_search
       date_parameter actual_date w0 =
     (let w1 = logging_info ''Calculating date from %d months ago.'' w0 in
      (case calculate actual_date date_parameter of
         Inl e \<Rightarrow> Some (w1, Inl e)
       | Inr dates \<Rightarrow>
      (case browse b phrase_category_search (fst dates) (snd dates) w1 of
         None \<Rightarrow> None
       | Some (w2, Inl e) \<Rightarrow> Some (w2, Inl e)
       | Some (w2, Inr page) \<Rightarrow>
           Some (extract_and_report b robot_artifacts requests_get g phrase_to_search page w2))))"

definition minimal_task ::
  "'p browser \<Rightarrow> string option \<Rightarrow> (string \<Rightarrow> error + response) \<Rightarrow> globals
     \<Rightarrow> (string \<rightharpoonup> pyval) \<Rightarrow> datetime \<Rightarrow> world \<Rightarrow> (world \<times> (error + unit)) option" where
  "minimal_task b robot_artifacts requests_get g payload now w0 =
     (let w1 = logging_info ''Starting minimal task.'' w0;
          w2 = logging_info ''Received payload: %s'' w1;
          date_parameter = payload_get payload ''Month'' (PStr ''0'');
          phrase_to_search = payload_get payload ''Phrase'' (PStr ''Economy'');
          category_to_search = payload_get payload ''Category'' (PStr ''LatinAmerica'');
          phrase_category_search =
            str_pyval phrase_to_search @ '' in '' @ str_pyval category_to_search;
          actual_date = now
      in case date_parameter of
           PStr s \<Rightarrow> Some (w2, Inl TypeError)
         | PNone \<Rightarrow> Some (w2, Inl TypeError)
         | PInt n \<Rightarrow>
             if n < 0 then Some (logging_error ''Invalid date parameter: %d'' w2, Inr ())
             else minimal_task_run b robot_artifacts requests_get g phrase_to_search
                    phrase_category_search (n - 1) actual_date w2)"


text \<open>
  The page after one click on the load-more control; a browser in which every click
  and fill succeeds; and the browsers and data of the concrete runs below: in
  \<open>counter_browser n\<close> the page is the number of clicks on the control, which is
  hidden from \<open>n\<close> clicks on; in \<open>endless_browser\<close> it is never hidden.
\<close>

definition next_page :: "'p browser \<Rightarrow> 'p \<Rightarrow> 'p" where
  "next_page b page = (case click b load_more page of Inl e \<Rightarrow> page | Inr page1 \<Rightarrow> page1)"

definition world0 :: world where
  "world0 = \<lparr>files = Map.empty, logged = [], actions = [], fetches = []\<rparr>"

definition cooperative :: "'p browser \<Rightarrow> bool" where
  "cooperative b \<longleftrightarrow>
     (\<exists>page. goto b = Inr page)
     \<and> (\<forall>selector page. \<exists>page1. click b selector page = Inr page1)
     \<and> (\<forall>selector txt page. \<exists>page1. fill b selector txt page = Inr page1)"

definition counter_browser :: "nat \<Rightarrow> nat browser" where
  "counter_browser n =
     \<lparr>goto = Inr 0,
      click = (\<lambda>selector page. Inr (if selector = load_more then Suc page else page)),
      fill = (\<lambda>selector txt page. Inr page),
      is_hidden = (\<lambda>selector page. n \<le> page),
      inner_text = (\<lambda>selector page. Inr ''3'')\<rparr>"

definition endless_browser :: "nat browser" where
  "endless_browser =
     \<lparr>goto = Inr 0,
      click = (\<lambda>selector page. Inr (Suc page)),
      fill = (\<lambda>selector txt page. Inr page),
      is_hidden = (\<lambda>selector page. False),
      inner_text = (\<lambda>selector page. Inr ''3'')\<rparr>"

definition example_article :: "string \<Rightarrow> article" where
  "example_article t =
     \<lparr>title_text = Some t, image_src = Some ''https://example.org/a.jpg'',
      description_text = Some ''The economy grew by $5 billion'', date_text = Some ''May 1''\<rparr>"

section \<open>Properties of phrase_counter\<close>

lemma slice_eq_iff: "i \<le> length tw \<Longrightarrow> slice tw i (i + length pw) = pw \<longleftrightarrow> (i + length pw \<le> length tw \<and> (\<forall>k<length pw. tw ! (i + k) = pw ! k))"
  unfolding slice_def
  by (auto simp: list_eq_iff_nth_eq)

lemma sum_ones: "sum_list (map (\<lambda>i. 1::int) xs) = int (length xs)"
  by (induction xs) auto

lemma length_filter_upt: "length (filter P [0..<n]) = card {i. i < n \<and> P i}"
proof -
  have "distinct (filter P [0..<n])" by simp
  then have "length (filter P [0..<n]) = card (set (filter P [0..<n]))"
    by (rule distinct_card [symmetric])
  also have "set (filter P [0..<n]) = {i. i < n \<and> P i}" by auto
  finally show ?thesis .
qed

lemma count_code_spec:
  "sum_list (map (\<lambda>i. 1::int)
           (filter (\<lambda>i. slice tw i (i + length pw) = pw)
              (range_py (int (length tw) - int (length pw) + 1))))
   = int (card {i. occurs_at tw pw i})"
proof -
  let ?n = "nat (int (length tw) - int (length pw) + 1)"
  have "{i. i < ?n \<and> slice tw i (i + length pw) = pw} = {i. occurs_at tw pw i}"
  proof (rule set_eqI, simp del: of_nat_diff, rule iffI)
    fix i assume a: "i < ?n \<and> slice tw i (i + length pw) = pw"
    then have "i \<le> length tw" by linarith
    with a show "occurs_at tw pw i" by (simp add: slice_eq_iff occurs_at_def)
  next
    fix i assume a: "occurs_at tw pw i"
    then have b: "i + length pw \<le> length tw" by (simp add: occurs_at_def)
    then have "i < ?n" by linarith
    moreover have "slice tw i (i + length pw) = pw"
      using a b by (simp add: slice_eq_iff occurs_at_def)
    ultimately show "i < ?n \<and> slice tw i (i + length pw) = pw" by simp
  qed
  then show ?thesis
    by (simp only: sum_ones range_py_def length_filter_upt)
qed

lemma occurs_none: "length tw < length pw \<Longrightarrow> {i. occurs_at tw pw i} = {}"
  by (auto simp: occurs_at_def)

text \<open>
  Claim C2. \<open>phrase_counter text phrase\<close> is the number of start positions at which
  the tokens of the lower-cased phrase occur contiguously in the tokens of the
  lower-cased text; it is 0 when the phrase has more tokens than the text; the two
  examples of the specification evaluate to 2 and 0.
\<close>

theorem phrase_counter_counts_token_matches:
  "phrase_counter text phrase = int (card {i. occurs_at (tokens text) (tokens phrase) i})
   \<and> (length (tokens text) < length (tokens phrase) \<longrightarrow> phrase_counter text phrase = 0)
   \<and> phrase_counter ''The Economy is growing the economy'' ''economy'' = 2
   \<and> phrase_counter ''economyboom'' ''economy'' = 0"
proof -
  have eq: "phrase_counter text phrase = int (card {i. occurs_at (tokens text) (tokens phrase) i})"
    unfolding phrase_counter_def tokens_def Let_def by (rule count_code_spec)
  have zero: "length (tokens text) < length (tokens phrase) \<longrightarrow> phrase_counter text phrase = 0"
    using eq by (simp add: occurs_none)
  have e1: "phrase_counter ''The Economy is growing the economy'' ''economy'' = 2"
    by code_simp
  have e2: "phrase_counter ''economyboom'' ''economy'' = 0"
    by code_simp
  from eq zero e1 e2 show ?thesis by blast
qed

text \<open>The theorem at a phrase longer than the text, and at a two-token phrase.\<close>

theorem phrase_counter_counts_token_matches_witness:
  "length (tokens ''growth'') < length (tokens ''the Economy'')
   \<and> phrase_counter ''growth'' ''the Economy'' = 0
   \<and> phrase_counter ''Economy and THE  economy'' ''the Economy''
       = int (card {i. occurs_at (tokens ''Economy and THE  economy'') (tokens ''the Economy'') i})
   \<and> phrase_counter ''Economy and THE  economy'' ''the Economy'' = 1"
proof -
  have h: "length (tokens ''growth'') < length (tokens ''the Economy'')" by code_simp
  have v: "phrase_counter ''Economy and THE  economy'' ''the Economy'' = 1" by code_simp
  from phrase_counter_counts_token_matches [of "''growth''" "''the Economy''"] h
    phrase_counter_counts_token_matches [of "''Economy and THE  economy''" "''the Economy''"] v
  show ?thesis by blast
qed

section \<open>Properties of DateCalculator.calculate\<close>

lemma minus_days_within:
  "n < day d \<Longrightarrow> minus_days d n = Inr (d\<lparr>day := day d - n\<rparr>)"
proof (induction n arbitrary: d)
  case 0 then show ?case by simp
next
  case (Suc n)
  then have "prev_day d = Inr (d\<lparr>day := day d - 1\<rparr>)" by (simp add: prev_day_def)
  moreover have "n < day (d\<lparr>day := day d - 1\<rparr>)" using Suc.prems by simp
  ultimately show ?case using Suc.IH [of "d\<lparr>day := day d - 1\<rparr>"] by simp
qed

lemma minus_days_all:
  "1 \<le> day d \<Longrightarrow> minus_days d (day d) = prev_day (d\<lparr>day := 1\<rparr>)"
proof -
  assume a: "1 \<le> day d"
  then obtain n where n: "day d = Suc n" by (cases "day d") auto
  have "minus_days d (Suc n) = prev_day (d\<lparr>day := 1\<rparr>)"
    using n
  proof (induction n arbitrary: d)
    case 0
    then have "d\<lparr>day := 1\<rparr> = d" by simp
    then show ?case by (simp split: sum.splits)
  next
    case (Suc n)
    then have p: "prev_day d = Inr (d\<lparr>day := Suc n\<rparr>)" by (simp add: prev_day_def)
    have "minus_days (d\<lparr>day := Suc n\<rparr>) (Suc n) = prev_day (d\<lparr>day := Suc n, day := 1\<rparr>)"
      by (rule Suc.IH) simp
    then show ?case using p by simp
  qed
  then show ?thesis using n by simp
qed

lemma days_in_month_pos: "1 \<le> days_in_month y m"
  by (simp add: days_in_month_def)

lemma prev_month_ok:
  assumes "wf_month d" "0 < month_index d"
  shows "\<exists>d'. prev_day (d\<lparr>day := 1\<rparr>) = Inr d' \<and> wf_month d'
           \<and> Suc (month_index d') = month_index d
           \<and> day d' = days_in_month (year d') (month d') \<and> same_time d' d"
proof (cases "1 < month d")
  case True
  with assms show ?thesis
    unfolding prev_day_def wf_month_def month_index_def same_time_def
    by simp arith
next
  case False
  with assms have m: "month d = 1" and y: "1 < year d"
    by (auto simp: wf_month_def month_index_def)
  then show ?thesis
    unfolding prev_day_def wf_month_def month_index_def same_time_def days_in_month_def
    by simp arith
qed

lemma prev_month_overflow:
  assumes "wf_month d" "month_index d = 0"
  shows "prev_day (d\<lparr>day := 1\<rparr>) = Inl OverflowError"
proof -
  from assms have "month d = 1" "year d = 1"
    by (auto simp: wf_month_def month_index_def)
  then show ?thesis by (simp add: prev_day_def)
qed

lemma calculate_loop_ok:
  "wf_month d \<Longrightarrow> 1 \<le> day d \<Longrightarrow> 0 < k \<Longrightarrow> k \<le> month_index d \<Longrightarrow>
   \<exists>d'. calculate_loop k d = Inr d' \<and> wf_month d' \<and> month_index d' + k = month_index d
        \<and> day d' = days_in_month (year d') (month d') \<and> same_time d' d"
proof (induction k arbitrary: d)
  case 0 then show ?case by simp
next
  case (Suc k)
  from Suc.prems have "0 < month_index d" by simp
  with prev_month_ok [of d] Suc.prems obtain d1 where
    p: "prev_day (d\<lparr>day := 1\<rparr>) = Inr d1" and w: "wf_month d1"
    and i: "Suc (month_index d1) = month_index d"
    and dd: "day d1 = days_in_month (year d1) (month d1)" and t: "same_time d1 d"
    by blast
  have m: "minus_days d (day d) = Inr d1"
    using minus_days_all [of d] Suc.prems p by simp
  show ?case
  proof (cases "k = 0")
    case True
    with m w i dd t show ?thesis by simp
  next
    case False
    have "1 \<le> day d1" using dd days_in_month_pos by simp
    moreover have "k \<le> month_index d1" using i Suc.prems by simp
    ultimately obtain d' where
      "calculate_loop k d1 = Inr d'" "wf_month d'" "month_index d' + k = month_index d1"
      "day d' = days_in_month (year d') (month d')" "same_time d' d1"
      using Suc.IH [of d1] w False by blast
    with m i t show ?thesis by (auto simp: same_time_def)
  qed
qed

lemma calculate_loop_overflow:
  "wf_month d \<Longrightarrow> 1 \<le> day d \<Longrightarrow> month_index d < k \<Longrightarrow>
   calculate_loop k d = Inl OverflowError"
proof (induction k arbitrary: d)
  case 0 then show ?case by simp
next
  case (Suc k)
  show ?case
  proof (cases "month_index d = 0")
    case True
    then have "minus_days d (day d) = Inl OverflowError"
      using minus_days_all [of d] prev_month_overflow [of d] Suc.prems by simp
    then show ?thesis by simp
  next
    case False
    with prev_month_ok [of d] Suc.prems obtain d1 where
      p: "prev_day (d\<lparr>day := 1\<rparr>) = Inr d1" and w: "wf_month d1"
      and i: "Suc (month_index d1) = month_index d"
      and dd: "day d1 = days_in_month (year d1) (month d1)"
      by blast
    have m: "minus_days d (day d) = Inr d1"
      using minus_days_all [of d] Suc.prems p by simp
    have "1 \<le> day d1" using dd days_in_month_pos by simp
    moreover have "month_index d1 < k" using i Suc.prems by simp
    ultimately have "calculate_loop k d1 = Inl OverflowError"
      using Suc.IH [of d1] w by blast
    with m show ?thesis by simp
  qed
qed

lemma month_index_less:
  "wf_month a \<Longrightarrow> wf_month b \<Longrightarrow> month_index a < month_index b \<Longrightarrow>
   year a < year b \<or> (year a = year b \<and> month a < month b)"
  unfolding wf_month_def month_index_def by arith

lemma valid_wf: "valid_datetime d \<Longrightarrow> wf_month d \<and> 1 \<le> day d"
  by (simp add: valid_datetime_def wf_month_def)

lemma calculate_window:
  assumes "valid_datetime actual_date" and "0 \<le> months"
  shows "(nat months \<le> month_index actual_date \<longrightarrow>
           (\<exists>start. calculate actual_date months = Inr (start, actual_date)
              \<and> dt_le start actual_date
              \<and> wf_month start
              \<and> month_index start + nat months = month_index actual_date
              \<and> day start = (if months = 0 then 1 else days_in_month (year start) (month start))
              \<and> same_time start actual_date))
       \<and> (month_index actual_date < nat months \<longrightarrow>
            calculate actual_date months = Inl OverflowError)"
proof (intro conjI impI)
  let ?s = "actual_date\<lparr>day := 1\<rparr>"
  have w: "wf_month ?s" "1 \<le> day ?s" "month_index ?s = month_index actual_date"
    using valid_wf [OF assms(1)] by (simp_all add: wf_month_def month_index_def)
  {
    assume le: "nat months \<le> month_index actual_date"
    show "\<exists>start. calculate actual_date months = Inr (start, actual_date)
              \<and> dt_le start actual_date
              \<and> wf_month start
              \<and> month_index start + nat months = month_index actual_date
              \<and> day start = (if months = 0 then 1 else days_in_month (year start) (month start))
              \<and> same_time start actual_date"
    proof (cases "months = 0")
      case True
      have "dt_le ?s actual_date"
        using valid_wf [OF assms(1)] by (auto simp: dt_le_def)
      then show ?thesis using True w
        by (simp add: calculate_def same_time_def)
    next
      case False
      with assms have k: "0 < nat months" by simp
      from calculate_loop_ok [OF w(1) w(2) k] le w(3) obtain d' where
        c: "calculate_loop (nat months) ?s = Inr d'" and wd: "wf_month d'"
        and i: "month_index d' + nat months = month_index actual_date"
        and dd: "day d' = days_in_month (year d') (month d')" and t: "same_time d' ?s"
        by auto
      have "month_index d' < month_index actual_date" using i k by simp
      then have "year d' < year actual_date
                 \<or> (year d' = year actual_date \<and> month d' < month actual_date)"
        using month_index_less [OF wd] valid_wf [OF assms(1)] by blast
      then have "dt_le d' actual_date" by (auto simp: dt_le_def)
      with c wd i dd t False show ?thesis
        by (simp add: calculate_def same_time_def)
    qed
  }
  {
    assume "month_index actual_date < nat months"
    then have "calculate_loop (nat months) ?s = Inl OverflowError"
      using calculate_loop_overflow [OF w(1) w(2)] w(3) by simp
    then show "calculate actual_date months = Inl OverflowError"
      by (simp add: calculate_def)
  }
qed


lemma calculate_loop_unfold:
  "0 < k \<Longrightarrow> calculate_loop k d =
     (case minus_days d (day d) of Inl e \<Rightarrow> Inl e | Inr d' \<Rightarrow> calculate_loop (k - 1) d')"
  by (cases k) (auto split: sum.splits)

lemma minus_days_unfold:
  "0 < n \<Longrightarrow> minus_days d n =
     (case prev_day d of Inl e \<Rightarrow> Inl e | Inr d' \<Rightarrow> minus_days d' (n - 1))"
  by (cases n) (auto split: sum.splits)

lemmas date_eval = calculate_def datetime_of_def calculate_loop_unfold minus_days_unfold prev_day_def
  days_in_month_def is_leap_def valid_datetime_def month_index_def

text \<open>
  Claim C1, as amended. For a valid reference date and \<open>months \<ge> 0\<close>: when the month
  \<open>months\<close> months before the reference month is not before January of year 1,
  \<open>calculate\<close> returns \<open>(start, actual_date)\<close> with the reference date unchanged,
  \<open>start \<le> actual_date\<close>, \<open>start\<close> in the month \<open>months\<close> months before the reference
  month, at the same time of day; its day is 1 when \<open>months = 0\<close> and the last day of
  that month otherwise. When that month is before year 1, \<open>OverflowError\<close> is raised.
\<close>

theorem calculate_start_of_window:
  assumes "valid_datetime actual_date" and "0 \<le> months"
  shows "(nat months \<le> month_index actual_date \<longrightarrow>
           (\<exists>start. calculate actual_date months = Inr (start, actual_date)
              \<and> dt_le start actual_date
              \<and> wf_month start
              \<and> month_index start + nat months = month_index actual_date
              \<and> day start = (if months = 0 then 1 else days_in_month (year start) (month start))
              \<and> same_time start actual_date))
       \<and> (month_index actual_date < nat months \<longrightarrow>
            calculate actual_date months = Inl OverflowError)"
  using assms by (rule calculate_window)

text \<open>The theorem at 2024-03-15 with two months back, and at 0001-02-15.\<close>

theorem calculate_start_of_window_witness:
  "valid_datetime (datetime_of 2024 3 15) \<and> (0::int) \<le> 2 \<and> nat 2 \<le> month_index (datetime_of 2024 3 15)
   \<and> calculate (datetime_of 2024 3 15) 2 = Inr (datetime_of 2024 1 31, datetime_of 2024 3 15)
   \<and> valid_datetime (datetime_of 1 2 15) \<and> month_index (datetime_of 1 2 15) < nat 2
   \<and> calculate (datetime_of 1 2 15) 2 = Inl OverflowError"
proof -
  have v: "valid_datetime (datetime_of 2024 3 15)" by (simp add: date_eval)
  have v2: "valid_datetime (datetime_of 1 2 15)" by (simp add: date_eval)
  have le: "nat 2 \<le> month_index (datetime_of 2024 3 15)" by (simp add: date_eval)
  have lt: "month_index (datetime_of 1 2 15) < nat 2" by (simp add: date_eval)
  have c: "calculate (datetime_of 2024 3 15) 2 = Inr (datetime_of 2024 1 31, datetime_of 2024 3 15)" by (simp add: date_eval)
  from calculate_start_of_window [OF v, of 2] calculate_start_of_window [OF v2, of 2] v v2 le lt c
  show ?thesis by simp
qed

text \<open>
  Claim C1 as stated fails: one month back from 2024-03-15 the start is 2024-02-29,
  not a first day of a month; one month back from 0001-01-15 nothing is returned.
\<close>

theorem calculate_day_one_counterexample:
  "calculate (datetime_of 2024 3 15) 1 = Inr (datetime_of 2024 2 29, datetime_of 2024 3 15)
   \<and> day (datetime_of 2024 2 29) \<noteq> 1
   \<and> calculate (datetime_of 1 1 15) 1 = Inl OverflowError"
  by (simp add: date_eval)

section \<open>Properties of contains_money\<close>

lemma run_iff: "run P s i j \<longleftrightarrow> i \<le> j \<and> j \<le> length s \<and> (\<forall>x. i \<le> x \<and> x < j \<longrightarrow> P (s ! x))"
  by (auto simp: run_def list_all_iff)

lemma number_then_word_iff:
  "number_then_word s \<longleftrightarrow> (\<exists>i j k. number_then_word_from s i j k)"
proof
  assume "number_then_word s"
  then show "\<exists>i j k. number_then_word_from s i j k"
    unfolding number_then_word_def list_ex_iff by blast
next
  assume "\<exists>i j k. number_then_word_from s i j k"
  then obtain i j k where h: "number_then_word_from s i j k" by blast
  then have "i < j" "j \<le> k" "k \<le> length s"
    by (auto simp: number_then_word_from_def run_iff)
  then have "i \<in> set [0..<Suc (length s)]" "j \<in> set [i..<Suc (length s)]"
    "k \<in> set [j..<Suc (length s)]"
    by auto
  with h show "number_then_word s"
    unfolding number_then_word_def list_ex_iff by blast
qed

lemma dollar_then_iff:
  "dollar_then P s \<longleftrightarrow> (\<exists>i. Suc i < length s \<and> s ! i = CHR ''$'' \<and> P (s ! Suc i))"
  unfolding dollar_then_def list_ex_iff by auto

lemma word_at_Cons:
  "word_at s i (c # w) \<longleftrightarrow> i < length s \<and> s ! i = c \<and> word_at s (Suc i) w"
proof (cases "i < length s")
  case False
  then show ?thesis by (simp add: word_at_def)
next
  case True
  then have "drop i s = s ! i # drop (Suc i) s" by (simp add: Cons_nth_drop_Suc)
  then show ?thesis using True by (auto simp: word_at_def)
qed

lemma set_ends_lits:
  "i \<le> length s \<Longrightarrow>
   set (ends (lits w) s i) = (if word_at s i w then {i + length w} else {})"
proof (induction w arbitrary: i)
  case Nil
  then show ?case by (simp add: word_at_def)
next
  case (Cons c w)
  show ?case
  proof (cases "i < length s \<and> s ! i = c")
    case False
    then show ?thesis by (auto simp: word_at_Cons)
  next
    case True
    then have "Suc i \<le> length s" by simp
    from Cons.IH [OF this] True show ?thesis by (simp add: word_at_Cons)
  qed
qed

lemma within_refl: "within P s n i i"
  by (auto simp: within_def)

lemma within_step:
  assumes "i < j"
  shows "within P s (Suc n) i j \<longleftrightarrow> (i < length s \<and> P (s ! i)) \<and> within P s n (Suc i) j"
proof
  assume a: "within P s (Suc n) i j"
  then have "i < length s \<and> P (s ! i)" using assms unfolding within_def by blast
  moreover have "within P s n (Suc i) j"
    unfolding within_def
  proof (intro conjI allI impI)
    show "Suc i \<le> j" using assms by simp
    show "j \<le> Suc i + n" using a by (simp add: within_def)
  next
    fix x assume "Suc i \<le> x \<and> x < j"
    then have "i \<le> x \<and> x < j" by simp
    then show "x < length s" "P (s ! x)" using a unfolding within_def by blast+
  qed
  ultimately show "(i < length s \<and> P (s ! i)) \<and> within P s n (Suc i) j" by simp
next
  assume a: "(i < length s \<and> P (s ! i)) \<and> within P s n (Suc i) j"
  show "within P s (Suc n) i j"
    unfolding within_def
  proof (intro conjI allI impI)
    show "i \<le> j" using assms by simp
    show "j \<le> i + Suc n" using a by (simp add: within_def)
  next
    fix x assume x: "i \<le> x \<and> x < j"
    show "x < length s"
    proof (cases "x = i")
      case True then show ?thesis using a by simp
    next
      case False
      with x have "Suc i \<le> x \<and> x < j" by simp
      then show ?thesis using a unfolding within_def by blast
    qed
    show "P (s ! x)"
    proof (cases "x = i")
      case True then show ?thesis using a by simp
    next
      case False
      with x have "Suc i \<le> x \<and> x < j" by simp
      then show ?thesis using a unfolding within_def by blast
    qed
  qed
qed

lemma within_stuck:
  assumes "\<not> (i < length s \<and> P (s ! i))"
  shows "within P s n i j \<longleftrightarrow> j = i"
proof
  assume a: "within P s n i j"
  show "j = i"
  proof (rule ccontr)
    assume "j \<noteq> i"
    with a have "i \<le> i \<and> i < j" by (simp add: within_def)
    then have "i < length s \<and> P (s ! i)" using a unfolding within_def by blast
    with assms show False by simp
  qed
next
  assume "j = i" then show "within P s n i j" by (simp add: within_refl)
qed

lemma set_star_ends_class:
  assumes f: "\<And>k. set (f k) = (if k < length s \<and> P (s ! k) then {Suc k} else {})"
  shows "set (star_ends f n i) = {j. within P s n i j}"
proof (induction n arbitrary: i)
  case 0
  then show ?case by (auto simp: within_def)
next
  case (Suc n)
  show ?case
  proof (cases "i < length s \<and> P (s ! i)")
    case False
    then have "set (f i) = {}" using f [of i] by auto
    then have "f i = []" by simp
    then have "set (star_ends f (Suc n) i) = {i}" by simp
    moreover have "\<And>j. within P s (Suc n) i j \<longleftrightarrow> j = i"
      using False by (rule within_stuck)
    ultimately show ?thesis by auto
  next
    case True
    then have "set (f i) = {Suc i}" using f [of i] by simp
    then have "set (star_ends f (Suc n) i) = insert i (set (star_ends f n (Suc i)))"
      by simp
    then have e: "set (star_ends f (Suc n) i) = insert i {j. within P s n (Suc i) j}"
      by (simp only: Suc.IH)
    show ?thesis
    proof (rule set_eqI)
      fix j
      show "j \<in> set (star_ends f (Suc n) i) \<longleftrightarrow> j \<in> {j. within P s (Suc n) i j}"
      proof (cases "i < j")
        case True
        with within_step [OF True, of P s n] \<open>i < length s \<and> P (s ! i)\<close> e
        show ?thesis by simp
      next
        case False
        show ?thesis
        proof (cases "j = i")
          case True then show ?thesis using e by (simp add: within_refl)
        next
          case False
          with \<open>\<not> i < j\<close> have "j < i" by simp
          then have "\<not> within P s (Suc n) i j" "\<not> within P s n (Suc i) j"
            by (simp_all add: within_def)
          then show ?thesis using e False by simp
        qed
      qed
    qed
  qed
qed

lemma within_run:
  assumes "i \<le> length s"
  shows "within P s (length s) i j \<longleftrightarrow> run P s i j"
proof (cases "i = j")
  case True
  then show ?thesis using assms by (auto simp: run_iff within_refl)
next
  case False
  show ?thesis
  proof
    assume a: "within P s (length s) i j"
    then have "i \<le> j - 1 \<and> j - 1 < j" using False unfolding within_def by arith
    then have "j - 1 < length s" using a unfolding within_def by blast
    then have "j \<le> length s" by arith
    with a show "run P s i j" unfolding within_def run_iff by blast
  next
    assume "run P s i j"
    then show "within P s (length s) i j"
      unfolding within_def run_iff by auto
  qed
qed

lemma set_star_ends_run:
  assumes f: "\<And>k. set (f k) = (if k < length s \<and> P (s ! k) then {Suc k} else {})"
    and i: "i \<le> length s"
  shows "set (star_ends f (length s) i) = {j. run P s i j}"
  by (simp add: set_star_ends_class [OF f] within_run [OF i])

lemma ends_Seq_nonempty:
  "ends (Seq a b) s i \<noteq> [] \<longleftrightarrow> (\<exists>j\<in>set (ends a s i). ends b s j \<noteq> [])"
  by (auto simp: concat_eq_Nil_conv)

lemma ends_Sym_Seq_nonempty:
  "ends (Seq (Sym a) r) s i \<noteq> [] \<longleftrightarrow> i < length s \<and> in_cset a (s ! i) \<and> ends r s (Suc i) \<noteq> []"
  by simp

lemma ends_WordB_Seq_nonempty:
  "ends (Seq WordB r) s i \<noteq> [] \<longleftrightarrow> word_boundary s i \<and> ends r s i \<noteq> []"
  by simp

lemma run_Suc:
  assumes "i < length s" "P (s ! i)"
  shows "run P s (Suc i) j \<longleftrightarrow> i < j \<and> run P s i j"
proof
  assume a: "run P s (Suc i) j"
  show "i < j \<and> run P s i j"
    unfolding run_iff
  proof (intro conjI allI impI)
    show "i < j" "i \<le> j" "j \<le> length s" using a by (simp_all add: run_iff)
  next
    fix x assume x: "i \<le> x \<and> x < j"
    show "P (s ! x)"
    proof (cases "x = i")
      case True then show ?thesis using assms by simp
    next
      case False
      with x have "Suc i \<le> x \<and> x < j" by simp
      then show ?thesis using a unfolding run_iff by blast
    qed
  qed
next
  assume a: "i < j \<and> run P s i j"
  show "run P s (Suc i) j"
    unfolding run_iff
  proof (intro conjI allI impI)
    show "Suc i \<le> j" "j \<le> length s" using a by (simp_all add: run_iff)
  next
    fix x assume "Suc i \<le> x \<and> x < j"
    then have "i \<le> x \<and> x < j" by simp
    then show "P (s ! x)" using a unfolding run_iff by blast
  qed
qed

lemma run_first:
  assumes "i < j" "run P s i j"
  shows "i < length s \<and> P (s ! i)"
proof -
  from assms have "i \<le> i \<and> i < j" "j \<le> length s" by (simp_all add: run_iff)
  moreover have "i < length s" using assms by (simp add: run_iff)
  ultimately show ?thesis using assms(2) unfolding run_iff by blast
qed

lemma set_ends_Plus_class:
  assumes f: "\<And>k. set (ends r s k) = (if k < length s \<and> P (s ! k) then {Suc k} else {})"
  shows "set (ends (Plus r) s i) = {j. i < j \<and> run P s i j}"
proof (cases "i < length s \<and> P (s ! i)")
  case True
  then have e: "set (ends r s i) = {Suc i}" using f [of i] by simp
  have "Suc i \<le> length s" using True by simp
  then have "set (star_ends (\<lambda>k. ends r s k) (length s) (Suc i)) = {j. run P s (Suc i) j}"
    using set_star_ends_run [of "\<lambda>k. ends r s k" s P "Suc i"] f by blast
  then have "set (ends (Plus r) s i) = {j. run P s (Suc i) j}"
    using e by simp
  then show ?thesis using run_Suc [of i s P] True by simp
next
  case False
  then have "set (ends r s i) = {}" using f [of i] by auto
  then have "set (ends (Plus r) s i) = {}" by simp
  moreover have "{j. i < j \<and> run P s i j} = {}"
    using False run_first [of i _ P s] by blast
  ultimately show ?thesis by simp
qed

lemma set_ends_Star_class:
  assumes f: "\<And>k. set (ends r s k) = (if k < length s \<and> P (s ! k) then {Suc k} else {})"
    and i: "i \<le> length s"
  shows "set (ends (Star r) s i) = {j. run P s i j}"
  using set_star_ends_run [of "\<lambda>k. ends r s k" s P i] f i by simp

lemma set_ends_digit:
  "set (ends (Sym CDigit) s k) = (if k < length s \<and> isdecimal (s ! k) then {Suc k} else {})"
  by simp

lemma set_ends_space:
  "set (ends (Sym CSpace) s k) = (if k < length s \<and> isspace (s ! k) then {Suc k} else {})"
  by simp

lemma set_ends_digit_or_comma:
  "set (ends (Bracket [CDigit, CChar CHR '','']) s k)
   = (if k < length s \<and> (isdecimal (s ! k) \<or> s ! k = CHR '','') then {Suc k} else {})"
  by simp

lemma dollar_alt_nonempty:
  "ends dollar_alt s i \<noteq> [] \<longleftrightarrow>
   Suc i < length s \<and> s ! i = CHR ''$'' \<and> (isdecimal (s ! Suc i) \<or> s ! Suc i = CHR '','')"
proof -
  let ?P = "\<lambda>c. isdecimal c \<or> c = CHR '',''"
  let ?B = "Bracket [CDigit, CChar CHR '','']"
  let ?O = "Opt (Seq (Sym (CChar CHR ''.'')) (Plus (Sym CDigit)))"
  have plus: "\<And>k. set (ends (Plus ?B) s k) = {j. k < j \<and> run ?P s k j}"
    by (rule set_ends_Plus_class) (rule set_ends_digit_or_comma)
  have opt: "\<And>j. ends ?O s j \<noteq> []" by simp
  have "ends (Seq (Plus ?B) ?O) s (Suc i) \<noteq> [] \<longleftrightarrow> (\<exists>j. Suc i < j \<and> run ?P s (Suc i) j)"
    unfolding ends_Seq_nonempty plus using opt by blast
  also have "\<dots> \<longleftrightarrow> Suc i < length s \<and> ?P (s ! Suc i)"
  proof
    assume "\<exists>j. Suc i < j \<and> run ?P s (Suc i) j"
    then show "Suc i < length s \<and> ?P (s ! Suc i)" using run_first [of "Suc i" _ ?P s] by blast
  next
    assume a: "Suc i < length s \<and> ?P (s ! Suc i)"
    then have "run ?P s (Suc i) (Suc (Suc i))"
      unfolding run_iff by (auto simp: le_less_Suc_eq)
    then show "\<exists>j. Suc i < j \<and> run ?P s (Suc i) j" by blast
  qed
  finally have tail: "ends (Seq (Plus ?B) ?O) s (Suc i) \<noteq> [] \<longleftrightarrow> Suc i < length s \<and> ?P (s ! Suc i)" .
  have "ends dollar_alt s i \<noteq> [] \<longleftrightarrow>
        i < length s \<and> in_cset (CChar CHR ''$'') (s ! i) \<and> ends (Seq (Plus ?B) ?O) s (Suc i) \<noteq> []"
    unfolding dollar_alt_def by (rule ends_Sym_Seq_nonempty)
  also have "\<dots> \<longleftrightarrow> i < length s \<and> s ! i = CHR ''$'' \<and> (Suc i < length s \<and> ?P (s ! Suc i))"
    by (simp only: tail in_cset.simps)
  finally show ?thesis by auto
qed

lemma currency_word_nonempty:
  assumes "k \<le> length s"
  shows "ends (Seq (Alt (lits ''dollars'') (lits ''USD'')) WordB) s k \<noteq> [] \<longleftrightarrow>
         (word_at s k ''dollars'' \<and> word_boundary s (k + 7)
          \<or> word_at s k ''USD'' \<and> word_boundary s (k + 3))"
proof -
  have d: "set (ends (lits ''dollars'') s k) = (if word_at s k ''dollars'' then {k + 7} else {})"
    using set_ends_lits [OF assms, of "''dollars''"] by (simp del: lits.simps)
  have u: "set (ends (lits ''USD'') s k) = (if word_at s k ''USD'' then {k + 3} else {})"
    using set_ends_lits [OF assms, of "''USD''"] by (simp del: lits.simps)
  have "set (ends (Alt (lits ''dollars'') (lits ''USD'')) s k)
        = (if word_at s k ''dollars'' then {k + 7} else {})
          \<union> (if word_at s k ''USD'' then {k + 3} else {})"
    using d u by (simp del: lits.simps)
  then have "ends (Seq (Alt (lits ''dollars'') (lits ''USD'')) WordB) s k \<noteq> [] \<longleftrightarrow>
     (\<exists>m\<in>(if word_at s k ''dollars'' then {k + 7} else {})
          \<union> (if word_at s k ''USD'' then {k + 3} else {}). ends WordB s m \<noteq> [])"
    by (simp only: ends_Seq_nonempty)
  also have "\<dots> \<longleftrightarrow> (word_at s k ''dollars'' \<and> word_boundary s (k + 7)
          \<or> word_at s k ''USD'' \<and> word_boundary s (k + 3))"
    by (cases "word_at s k ''dollars''"; cases "word_at s k ''USD''") simp_all
  finally show ?thesis .
qed

lemma word_alt_nonempty:
  "ends word_alt s i \<noteq> [] \<longleftrightarrow> (\<exists>j k. number_then_word_from s i j k)"
proof -
  let ?W = "Seq (Alt (lits ''dollars'') (lits ''USD'')) WordB"
  have plus: "\<And>k. set (ends (Plus (Sym CDigit)) s k) = {j. k < j \<and> run isdecimal s k j}"
    by (rule set_ends_Plus_class) (rule set_ends_digit)
  have star: "\<And>j. j \<le> length s \<Longrightarrow> set (ends (Star (Sym CSpace)) s j) = {k. run isspace s j k}"
    by (rule set_ends_Star_class) (rule set_ends_space)
  have sw: "\<And>j. j \<le> length s \<Longrightarrow>
      ends (Seq (Star (Sym CSpace)) ?W) s j \<noteq> [] \<longleftrightarrow>
      (\<exists>k. run isspace s j k \<and> (word_at s k ''dollars'' \<and> word_boundary s (k + 7)
          \<or> word_at s k ''USD'' \<and> word_boundary s (k + 3)))"
  proof -
    fix j assume j: "j \<le> length s"
    have "ends (Seq (Star (Sym CSpace)) ?W) s j \<noteq> [] \<longleftrightarrow>
          (\<exists>k. run isspace s j k \<and> ends ?W s k \<noteq> [])"
      unfolding ends_Seq_nonempty [of "Star (Sym CSpace)"] star [OF j] by blast
    also have "\<dots> \<longleftrightarrow> (\<exists>k. run isspace s j k \<and> (word_at s k ''dollars'' \<and> word_boundary s (k + 7)
          \<or> word_at s k ''USD'' \<and> word_boundary s (k + 3)))"
    proof -
      have "\<And>k. run isspace s j k \<Longrightarrow> (ends ?W s k \<noteq> [] \<longleftrightarrow>
          (word_at s k ''dollars'' \<and> word_boundary s (k + 7)
          \<or> word_at s k ''USD'' \<and> word_boundary s (k + 3)))"
        by (rule currency_word_nonempty) (simp add: run_iff)
      then show ?thesis by blast
    qed
    finally show "ends (Seq (Star (Sym CSpace)) ?W) s j \<noteq> [] \<longleftrightarrow>
      (\<exists>k. run isspace s j k \<and> (word_at s k ''dollars'' \<and> word_boundary s (k + 7)
          \<or> word_at s k ''USD'' \<and> word_boundary s (k + 3)))" .
  qed
  have "ends (Seq (Plus (Sym CDigit)) (Seq (Star (Sym CSpace)) ?W)) s i \<noteq> [] \<longleftrightarrow>
        (\<exists>j. i < j \<and> run isdecimal s i j \<and> ends (Seq (Star (Sym CSpace)) ?W) s j \<noteq> [])"
    unfolding ends_Seq_nonempty [of "Plus (Sym CDigit)"] plus by blast
  also have "\<dots> \<longleftrightarrow> (\<exists>j. i < j \<and> run isdecimal s i j \<and>
      (\<exists>k. run isspace s j k \<and> (word_at s k ''dollars'' \<and> word_boundary s (k + 7)
          \<or> word_at s k ''USD'' \<and> word_boundary s (k + 3))))"
  proof -
    have "\<And>j. run isdecimal s i j \<Longrightarrow> (ends (Seq (Star (Sym CSpace)) ?W) s j \<noteq> [] \<longleftrightarrow>
      (\<exists>k. run isspace s j k \<and> (word_at s k ''dollars'' \<and> word_boundary s (k + 7)
          \<or> word_at s k ''USD'' \<and> word_boundary s (k + 3))))"
      by (rule sw) (simp add: run_iff)
    then show ?thesis by blast
  qed
  finally have body: "ends (Seq (Plus (Sym CDigit)) (Seq (Star (Sym CSpace)) ?W)) s i \<noteq> [] \<longleftrightarrow>
     (\<exists>j. i < j \<and> run isdecimal s i j \<and>
      (\<exists>k. run isspace s j k \<and> (word_at s k ''dollars'' \<and> word_boundary s (k + 7)
          \<or> word_at s k ''USD'' \<and> word_boundary s (k + 3))))" .
  have "ends word_alt s i \<noteq> [] \<longleftrightarrow>
        word_boundary s i \<and> ends (Seq (Plus (Sym CDigit)) (Seq (Star (Sym CSpace)) ?W)) s i \<noteq> []"
    unfolding word_alt_def by (rule ends_WordB_Seq_nonempty)
  with body show ?thesis unfolding number_then_word_from_def by blast
qed

lemma list_ex_upto: "list_ex Q [0..<Suc n] \<longleftrightarrow> (\<exists>i\<le>n. Q i)"
  by (simp add: list_ex_iff Bex_def less_Suc_eq_le del: upt_Suc)

lemma contains_money_alts:
  "contains_money s \<longleftrightarrow> (\<exists>i\<le>length s. ends dollar_alt s i \<noteq> [] \<or> ends word_alt s i \<noteq> [])"
proof -
  have "\<And>i. ends money_pattern s i = ends dollar_alt s i @ ends word_alt s i"
    unfolding money_pattern_def by (simp only: ends.simps)
  then have "\<And>i. ends money_pattern s i \<noteq> [] \<longleftrightarrow> ends dollar_alt s i \<noteq> [] \<or> ends word_alt s i \<noteq> []"
    by simp
  then show ?thesis
    by (simp only: contains_money_def matches_somewhere_def list_ex_upto)
qed

lemma contains_money_characterised:
  "contains_money s \<longleftrightarrow>
     dollar_then (\<lambda>c. isdecimal c \<or> c = CHR '','') s \<or> number_then_word s"
proof -
  have "contains_money s \<longleftrightarrow>
        (\<exists>i\<le>length s. (Suc i < length s \<and> s ! i = CHR ''$'' \<and> (isdecimal (s ! Suc i) \<or> s ! Suc i = CHR '',''))
            \<or> (\<exists>j k. number_then_word_from s i j k))"
    unfolding contains_money_alts dollar_alt_nonempty word_alt_nonempty ..
  also have "\<dots> \<longleftrightarrow> (\<exists>i. Suc i < length s \<and> s ! i = CHR ''$'' \<and> (isdecimal (s ! Suc i) \<or> s ! Suc i = CHR '',''))
            \<or> (\<exists>i j k. number_then_word_from s i j k)"
  proof -
    have "\<And>i j k. number_then_word_from s i j k \<Longrightarrow> i \<le> length s"
      by (auto simp: number_then_word_from_def run_iff)
    moreover have "\<And>i. Suc i < length s \<Longrightarrow> i \<le> length s" by simp
    ultimately show ?thesis by blast
  qed
  finally show ?thesis
    by (simp add: dollar_then_iff number_then_word_iff)
qed

text \<open>
  Claim C3, as amended. \<open>contains_money text\<close> holds exactly when the text has a
  \<open>$\<close> immediately followed by a digit or a comma, or has digits starting at a word
  boundary, then optional whitespace, then \<open>dollars\<close> or \<open>USD\<close> ending at a word
  boundary; the three examples of the specification evaluate as stated.
\<close>

theorem contains_money_matches_pattern:
  "(contains_money text \<longleftrightarrow>
      dollar_then (\<lambda>c. isdecimal c \<or> c = CHR '','') text \<or> number_then_word text)
   \<and> contains_money ''Prices rose to $1,200.50 today''
   \<and> contains_money ''I have 500 dollars''
   \<and> \<not> contains_money ''There were 500 people''"
proof -
  have e1: "contains_money ''Prices rose to $1,200.50 today''" by code_simp
  have e2: "contains_money ''I have 500 dollars''" by code_simp
  have e3: "\<not> contains_money ''There were 500 people''" by code_simp
  from contains_money_characterised [of "text"] e1 e2 e3 show ?thesis by blast
qed

text \<open>The theorem at a price with a decimal fraction and at a number without marker.\<close>

theorem contains_money_matches_pattern_witness:
  "contains_money ''It costs $3.50''
   \<and> dollar_then (\<lambda>c. isdecimal c \<or> c = CHR '','') ''It costs $3.50''
   \<and> \<not> number_then_word ''It costs 3 euros'' \<and> \<not> contains_money ''It costs 3 euros''"
proof -
  have a: "dollar_then (\<lambda>c. isdecimal c \<or> c = CHR '','') ''It costs $3.50''" by code_simp
  have b: "\<not> contains_money ''It costs 3 euros''" by code_simp
  from contains_money_matches_pattern [of "''It costs $3.50''"]
    contains_money_matches_pattern [of "''It costs 3 euros''"] a b
  show ?thesis by blast
qed

text \<open>
  Claim C3 as stated fails: a \<open>$\<close> followed by a comma and no digit is reported as
  money, though the text has neither a \<open>$\<close> followed by digits nor a number.
\<close>

theorem contains_money_comma_counterexample:
  "contains_money ''Fee $,'' \<and> \<not> money_as_specified ''Fee $,''"
  by code_simp

section \<open>Properties of ExcelCreator\<close>




section \<open>Properties of minimal_task: the Month parameter\<close>

text \<open>
  Claim C7. When the payload's \<open>Month\<close> is a negative integer, \<open>minimal_task\<close>
  writes the two opening records and one error record to the log and returns; the
  browser actions, the image requests and the files are those it started with.
\<close>

theorem minimal_task_negative_month:
  assumes "payload ''Month'' = Some (PInt n)" and "n < 0"
  shows "minimal_task b robot_artifacts requests_get g payload now w =
           Some (w\<lparr>logged := logged w @ [(INFO, ''Starting minimal task.''),
                   (INFO, ''Received payload: %s''),
                   (ERROR, ''Invalid date parameter: %d'')]\<rparr>, Inr ())"
  using assms
  by (simp add: minimal_task_def payload_get_def logging_info_def logging_error_def)

text \<open>The theorem at \<open>Month = -1\<close>.\<close>

theorem minimal_task_negative_month_witness:
  "[''Month'' \<mapsto> PInt (- 1)] ''Month'' = Some (PInt (- 1)) \<and> (- 1 :: int) < 0
   \<and> minimal_task (counter_browser 0) (Some ''output'') (\<lambda>u. Inl RequestException)
        source_globals [''Month'' \<mapsto> PInt (- 1)] (datetime_of 2025 3 15) world0 =
       Some (world0\<lparr>logged := logged world0 @ [(INFO, ''Starting minimal task.''),
                   (INFO, ''Received payload: %s''),
                   (ERROR, ''Invalid date parameter: %d'')]\<rparr>, Inr ())"
proof -
  have p: "[''Month'' \<mapsto> PInt (- 1)] ''Month'' = Some (PInt (- 1))" by simp
  have n: "(- 1 :: int) < 0" by simp
  from minimal_task_negative_month [where payload = "[''Month'' \<mapsto> PInt (- 1)]" and n = "- 1",
      OF p n] p n
  show ?thesis by blast
qed

text \<open>
  Claim C10. When the payload has no \<open>Month\<close>, the default is the string \<open>'0'\<close>
  and its comparison with \<open>0\<close> raises \<open>TypeError\<close>: the task ends with that error
  after the two opening log records, before the date calculation, with the browser
  actions, the image requests and the files as it started.
\<close>

theorem minimal_task_missing_month:
  assumes "payload ''Month'' = None"
  shows "minimal_task b robot_artifacts requests_get g payload now w =
           Some (w\<lparr>logged := logged w @ [(INFO, ''Starting minimal task.''),
                   (INFO, ''Received payload: %s'')]\<rparr>, Inl TypeError)"
  using assms
  by (simp add: minimal_task_def payload_get_def logging_info_def)

text \<open>The theorem at the empty payload.\<close>

theorem minimal_task_missing_month_witness:
  "(Map.empty :: string \<rightharpoonup> pyval) ''Month'' = None
   \<and> minimal_task (counter_browser 0) (Some ''output'') (\<lambda>u. Inl RequestException)
        source_globals Map.empty (datetime_of 2025 3 15) world0 =
       Some (world0\<lparr>logged := logged world0 @ [(INFO, ''Starting minimal task.''),
                   (INFO, ''Received payload: %s'')]\<rparr>, Inl TypeError)"
proof -
  have p: "(Map.empty :: string \<rightharpoonup> pyval) ''Month'' = None" by simp
  from minimal_task_missing_month [where payload = "Map.empty", OF p] p
  show ?thesis by blast
qed

section \<open>Properties of the load-more loop\<close>

lemma load_more_loop_hidden_after:
  assumes ok: "\<forall>page. \<exists>page1. click b load_more page = Inr page1"
  shows "is_hidden b load_more ((next_page b ^^ k) page) \<Longrightarrow>
         (\<forall>j<k. \<not> is_hidden b load_more ((next_page b ^^ j) page)) \<Longrightarrow>
         load_more_loop b page w =
           Some (w\<lparr>actions := actions w @ replicate k (Click load_more)\<rparr>,
                 Inr ((next_page b ^^ k) page))"
proof (induction k arbitrary: page w)
  case 0
  then show ?case by (simp add: load_more_loop.simps)
next
  case (Suc k)
  from Suc.prems(2) have nh: "\<not> is_hidden b load_more page" by force
  from ok obtain page1 where c: "click b load_more page = Inr page1" by blast
  then have np: "next_page b page = page1" by (simp add: next_page_def)
  have h: "is_hidden b load_more ((next_page b ^^ k) page1)"
    using Suc.prems(1) np by (simp add: funpow_swap1)
  have n: "\<forall>j<k. \<not> is_hidden b load_more ((next_page b ^^ j) page1)"
  proof (intro allI impI)
    fix j assume "j < k"
    then have "\<not> is_hidden b load_more ((next_page b ^^ Suc j) page)"
      using Suc.prems(2) by (metis Suc_less_eq)
    then show "\<not> is_hidden b load_more ((next_page b ^^ j) page1)"
      using np by (simp add: funpow_swap1)
  qed
  have "load_more_loop b page w =
        load_more_loop b page1 (w\<lparr>actions := actions w @ [Click load_more]\<rparr>)"
    using nh c by (subst load_more_loop.simps) simp
  also have "\<dots> = Some (w\<lparr>actions := actions w @ [Click load_more]\<rparr>
                          \<lparr>actions := actions (w\<lparr>actions := actions w @ [Click load_more]\<rparr>)
                              @ replicate k (Click load_more)\<rparr>,
                        Inr ((next_page b ^^ k) page1))"
    by (rule Suc.IH [OF h n])
  finally show ?case using np by (simp add: funpow_swap1 replicate_app_Cons_same)
qed

lemma load_more_loop_never_hidden:
  assumes ok: "\<forall>page. \<exists>page1. click b load_more page = Inr page1"
    and never: "\<forall>k. \<not> is_hidden b load_more ((next_page b ^^ k) page)"
  shows "load_more_loop b page w = None"
proof (rule ccontr)
  assume "load_more_loop b page w \<noteq> None"
  then obtain r where r: "load_more_loop b page w = Some r" by blast
  have "b = b \<longrightarrow> (\<forall>k. \<not> is_hidden b load_more ((next_page b ^^ k) page)) \<longrightarrow> False"
  proof (rule load_more_loop.raw_induct [where P = "\<lambda>b' page w r.
      b' = b \<longrightarrow> (\<forall>k. \<not> is_hidden b load_more ((next_page b ^^ k) page)) \<longrightarrow> False", OF _ r],
      goal_cases)
    case (1 loop b' page w r)
    show ?case
    proof (intro impI)
      assume b: "b' = b" and nv: "\<forall>k. \<not> is_hidden b load_more ((next_page b ^^ k) page)"
      from nv have nh: "\<not> is_hidden b load_more page" by (metis funpow_0)
      from ok obtain page1 where c: "click b load_more page = Inr page1" by blast
      then have np: "next_page b page = page1" by (simp add: next_page_def)
      from 1(2) b nh c have "loop b page1 (w\<lparr>actions := actions w @ [Click load_more]\<rparr>) = Some r"
        by simp
      then have "b = b \<longrightarrow> (\<forall>k. \<not> is_hidden b load_more ((next_page b ^^ k) page1)) \<longrightarrow> False"
        by (rule 1(1))
      moreover have "\<forall>k. \<not> is_hidden b load_more ((next_page b ^^ k) page1)"
      proof
        fix k
        have "\<not> is_hidden b load_more ((next_page b ^^ Suc k) page)" using nv by blast
        then show "\<not> is_hidden b load_more ((next_page b ^^ k) page1)"
          using np by (simp add: funpow_swap1)
      qed
      ultimately show False by blast
    qed
  qed
  with never show False by blast
qed

text \<open>
  Claim C9. In a page model whose clicks on the load-more control succeed: when the
  control is first reported hidden after \<open>k\<close> clicks, the loop returns after exactly
  \<open>k\<close> clicks, one for each observation of a visible control, for every \<open>k\<close>; the
  loop returns exactly when the control is hidden after some number of clicks; when
  it is never hidden the loop does not return.
\<close>

theorem load_more_loop_terminates_iff_hidden:
  assumes "\<forall>page. \<exists>page1. click b load_more page = Inr page1"
  shows "(\<forall>k. is_hidden b load_more ((next_page b ^^ k) page)
              \<and> (\<forall>j<k. \<not> is_hidden b load_more ((next_page b ^^ j) page)) \<longrightarrow>
            load_more_loop b page w =
              Some (w\<lparr>actions := actions w @ replicate k (Click load_more)\<rparr>,
                    Inr ((next_page b ^^ k) page)))
       \<and> ((\<exists>r. load_more_loop b page w = Some r)
            \<longleftrightarrow> (\<exists>k. is_hidden b load_more ((next_page b ^^ k) page)))
       \<and> ((\<forall>k. \<not> is_hidden b load_more ((next_page b ^^ k) page)) \<longrightarrow>
            load_more_loop b page w = None)"
proof (intro conjI)
  show a: "\<forall>k. is_hidden b load_more ((next_page b ^^ k) page)
              \<and> (\<forall>j<k. \<not> is_hidden b load_more ((next_page b ^^ j) page)) \<longrightarrow>
            load_more_loop b page w =
              Some (w\<lparr>actions := actions w @ replicate k (Click load_more)\<rparr>,
                    Inr ((next_page b ^^ k) page))"
    using load_more_loop_hidden_after [OF assms] by blast
  show c: "(\<forall>k. \<not> is_hidden b load_more ((next_page b ^^ k) page)) \<longrightarrow>
            load_more_loop b page w = None"
    using load_more_loop_never_hidden [OF assms] by blast
  show "(\<exists>r. load_more_loop b page w = Some r)
            \<longleftrightarrow> (\<exists>k. is_hidden b load_more ((next_page b ^^ k) page))"
  proof
    assume "\<exists>r. load_more_loop b page w = Some r"
    with c show "\<exists>k. is_hidden b load_more ((next_page b ^^ k) page)" by force
  next
    assume e: "\<exists>k. is_hidden b load_more ((next_page b ^^ k) page)"
    let ?k = "LEAST k. is_hidden b load_more ((next_page b ^^ k) page)"
    from e have "is_hidden b load_more ((next_page b ^^ ?k) page)" by (rule LeastI_ex)
    moreover have "\<forall>j<?k. \<not> is_hidden b load_more ((next_page b ^^ j) page)"
      using not_less_Least by blast
    ultimately show "\<exists>r. load_more_loop b page w = Some r" using a by blast
  qed
qed

lemma next_page_counter: "(next_page (counter_browser n) ^^ k) page = page + k"
  by (induction k) (simp_all add: next_page_def counter_browser_def)

lemma next_page_endless: "(next_page endless_browser ^^ k) page = page + k"
  by (induction k) (simp_all add: next_page_def endless_browser_def)

text \<open>The theorem at a control hidden after three clicks and at one never hidden.\<close>

theorem load_more_loop_terminates_iff_hidden_witness:
  "(\<forall>page. \<exists>page1. click (counter_browser 3) load_more page = Inr page1)
   \<and> load_more_loop (counter_browser 3) 0 world0 =
       Some (world0\<lparr>actions := [Click load_more, Click load_more, Click load_more]\<rparr>, Inr 3)
   \<and> (\<forall>page. \<exists>page1. click endless_browser load_more page = Inr page1)
   \<and> load_more_loop endless_browser 0 world0 = None"
proof -
  have ok: "\<forall>page. \<exists>page1. click (counter_browser 3) load_more page = Inr page1"
    by (simp add: counter_browser_def)
  have ok2: "\<forall>page. \<exists>page1. click endless_browser load_more page = Inr page1"
    by (simp add: endless_browser_def)
  have h: "is_hidden (counter_browser 3) load_more ((next_page (counter_browser 3) ^^ 3) 0)
     \<and> (\<forall>j<3. \<not> is_hidden (counter_browser 3) load_more ((next_page (counter_browser 3) ^^ j) 0))"
    unfolding next_page_counter by (simp add: counter_browser_def)
  have n: "\<forall>k. \<not> is_hidden endless_browser load_more ((next_page endless_browser ^^ k) 0)"
    by (simp add: endless_browser_def)
  have "load_more_loop (counter_browser 3) 0 world0 =
       Some (world0\<lparr>actions := actions world0 @ replicate 3 (Click load_more)\<rparr>,
             Inr ((next_page (counter_browser 3) ^^ 3) 0))"
    using load_more_loop_terminates_iff_hidden [OF ok, of 0 world0] h by blast
  then have a: "load_more_loop (counter_browser 3) 0 world0 =
       Some (world0\<lparr>actions := [Click load_more, Click load_more, Click load_more]\<rparr>, Inr 3)"
    unfolding next_page_counter by (simp add: world0_def numeral_3_eq_3)
  have b: "load_more_loop endless_browser 0 world0 = None"
    using load_more_loop_terminates_iff_hidden [OF ok2, of 0 world0] n by blast
  from ok ok2 a b show ?thesis by blast
qed

section \<open>Properties of minimal_task: the date range\<close>

lemma str_nat_small: "n < 10 \<Longrightarrow> str_nat n = [char_of (48 + n)]"
  by (subst str_nat.simps) simp

lemma str_nat_two:
  "10 \<le> n \<Longrightarrow> n < 100 \<Longrightarrow> str_nat n = [char_of (48 + n div 10), char_of (48 + n mod 10)]"
  by (subst str_nat.simps) (simp add: str_nat_small)

lemma length_two_digits: "0 \<le> k \<Longrightarrow> k < 100 \<Longrightarrow> length (two_digits k) = 2"
proof -
  assume k: "0 \<le> k" "k < 100"
  show ?thesis
  proof (cases "k < 10")
    case True
    then have "nat k < 10" using k by simp
    then show ?thesis using True k by (simp add: two_digits_def str_int_def str_nat_small)
  next
    case False
    then have "10 \<le> nat k" "nat k < 100" using k by simp_all
    then show ?thesis using False k by (simp add: two_digits_def str_int_def str_nat_two)
  qed
qed

lemma perform_cooperative: "cooperative b \<Longrightarrow> \<exists>page1. perform b a page = Inr page1"
  by (cases a) (auto simp: cooperative_def)

lemma run_actions_cooperative:
  assumes "cooperative b"
  shows "\<exists>page1. run_actions b acts page w = (w\<lparr>actions := actions w @ acts\<rparr>, Inr page1)"
proof (induction acts arbitrary: page w)
  case Nil
  then show ?case by simp
next
  case (Cons a acts)
  from perform_cooperative [OF assms] obtain page1 where p: "perform b a page = Inr page1"
    by blast
  from Cons.IH [of page1 "w\<lparr>actions := actions w @ [a]\<rparr>"] obtain page2 where
    "run_actions b acts page1 (w\<lparr>actions := actions w @ [a]\<rparr>)
       = (w\<lparr>actions := actions w @ [a]\<rparr>\<lparr>actions := actions (w\<lparr>actions := actions w @ [a]\<rparr>) @ acts\<rparr>, Inr page2)"
    by blast
  with p show ?case by simp
qed

lemma browse_cooperative:
  assumes c: "cooperative b" and h: "\<forall>page. is_hidden b load_more page"
  shows "\<exists>w1 page. browse b q start_date actual_date w = Some (w1, Inr page)
           \<and> actions w1 = actions w @ [Goto] @ search_actions q
                @ date_range_actions start_date actual_date @ [search_click]
           \<and> files w1 = files w \<and> fetches w1 = fetches w"
proof -
  let ?w2 = "(logging_info ''Configuring browser for automation.'' w)
               \<lparr>actions := actions (logging_info ''Configuring browser for automation.'' w) @ [Goto]\<rparr>"
  from c obtain p0 where g: "goto b = Inr p0" by (auto simp: cooperative_def)
  let ?w3 = "logging_info ''Performing search on the website.'' ?w2"
  from run_actions_cooperative [OF c, of "search_actions q" p0 ?w3] obtain p1 where
    r1: "run_actions b (search_actions q) p0 ?w3
           = (?w3\<lparr>actions := actions ?w3 @ search_actions q\<rparr>, Inr p1)" by blast
  let ?w4 = "?w3\<lparr>actions := actions ?w3 @ search_actions q\<rparr>"
  let ?w5 = "logging_info ''Selecting date range for the search.'' ?w4"
  from run_actions_cooperative [OF c, of "date_range_actions start_date actual_date" p1 ?w5]
  obtain p2 where
    r2: "run_actions b (date_range_actions start_date actual_date) p1 ?w5
           = (?w5\<lparr>actions := actions ?w5 @ date_range_actions start_date actual_date\<rparr>, Inr p2)"
    by blast
  let ?w6 = "?w5\<lparr>actions := actions ?w5 @ date_range_actions start_date actual_date\<rparr>"
  let ?w7 = "logging_info ''Starting search.'' ?w6"
  from run_actions_cooperative [OF c, of "[search_click]" p2 ?w7] obtain p3 where
    r3: "run_actions b [search_click] p2 ?w7
           = (?w7\<lparr>actions := actions ?w7 @ [search_click]\<rparr>, Inr p3)" by blast
  let ?w8 = "?w7\<lparr>actions := actions ?w7 @ [search_click]\<rparr>"
  let ?w9 = "logging_info ''Entering the loop to load more news.'' ?w8"
  have l: "load_more_loop b p3 ?w9 = Some (?w9, Inr p3)"
    using h by (subst load_more_loop.simps) simp
  have "browse b q start_date actual_date w = Some (?w9, Inr p3)"
    unfolding browse_def Let_def
    by (simp only: g r1 r2 r3 l sum.case prod.case)
  moreover have "actions ?w9 = actions w @ [Goto] @ search_actions q
                @ date_range_actions start_date actual_date @ [search_click]"
    by (simp add: logging_info_def)
  moreover have "files ?w9 = files w \<and> fetches ?w9 = fetches w"
    by (simp add: logging_info_def)
  ultimately show ?thesis by blast
qed

lemma download_image_actions:
  "actions (fst (download_image robot_artifacts requests_get url fname w)) = actions w"
  by (simp add: download_image_def Let_def logging_info_def logging_error_def
      split: option.splits sum.splits)

lemma process_article_actions:
  "actions (snd (fst (process_article robot_artifacts requests_get g phrase a xw))) = actions (snd xw)"
proof -
  have d: "\<And>src fname w1 r. download_image robot_artifacts requests_get src fname (snd xw) = (w1, r)
      \<Longrightarrow> actions w1 = actions (snd xw)"
    using download_image_actions by (metis fst_conv)
  show ?thesis
    unfolding process_article_def Let_def
    by (auto simp: add_row_def logging_info_def logging_debug_def dest: d
        split: option.splits pyval.splits sum.splits prod.splits)
qed

lemma article_loop_actions:
  "actions (snd (fst (article_loop robot_artifacts requests_get g phrase articles xw))) = actions (snd xw)"
proof (induction articles arbitrary: xw)
  case Nil
  then show ?case by simp
next
  case (Cons a articles)
  obtain xw1 r where p: "process_article robot_artifacts requests_get g phrase a xw = (xw1, r)"
    by (cases "process_article robot_artifacts requests_get g phrase a xw")
  then have a1: "actions (snd xw1) = actions (snd xw)"
    using process_article_actions [of robot_artifacts requests_get g phrase a xw] by simp
  show ?case
  proof (cases r)
    case (Inl e)
    with p a1 show ?thesis by simp
  next
    case (Inr u)
    with p a1 Cons.IH [of xw1] show ?thesis by simp
  qed
qed

lemma extract_and_report_actions:
  "\<exists>rest. actions (fst (extract_and_report b robot_artifacts requests_get g phrase page w))
           = actions w @ rest"
proof -
  let ?w3 = "logging_info ''Creating Excel table.''
              (logging_info ''Amount of news articles found: %d''
                (logging_info ''Finished loading news.'' w))"
  let ?xw = "create_headers (ExcelCreator ''data.xlsx'') headers ?w3"
  have x: "actions (snd ?xw) = actions w"
    by (simp add: create_headers_def logging_info_def)
  have l: "\<And>articles. actions (snd (fst (article_loop robot_artifacts requests_get g phrase articles ?xw)))
            = actions w"
    using article_loop_actions [of robot_artifacts requests_get g phrase _ ?xw] x by simp
  have s: "\<And>xl w0. actions (fst (save_file robot_artifacts xl w0)) = actions w0"
    by (simp add: save_file_def Let_def logging_info_def split: option.splits)
  show ?thesis
  proof (cases "inner_text b ''//div[@class='num-found']/span[2]/span'' page")
    case (Inl e)
    then show ?thesis by (simp add: extract_and_report_def logging_info_def)
  next
    case t: (Inr t)
    show ?thesis
    proof (cases "py_int t")
      case (Inl e)
      with t show ?thesis by (simp add: extract_and_report_def logging_info_def)
    next
      case n: (Inr n)
      show ?thesis
      proof (cases "g_driver g")
        case None
        with t n x show ?thesis by (simp add: extract_and_report_def Let_def)
      next
        case (Some articles)
        obtain xw1 r where a: "article_loop robot_artifacts requests_get g phrase articles ?xw = (xw1, r)"
          by (cases "article_loop robot_artifacts requests_get g phrase articles ?xw")
        then have a1: "actions (snd xw1) = actions w" using l [of articles] by simp
        show ?thesis
        proof (cases r)
          case (Inl e)
          with t n Some a a1 show ?thesis by (simp add: extract_and_report_def Let_def)
        next
          case (Inr u)
          let ?w6 = "logging_info ''Completed processing all news articles.'' (snd xw1)"
          obtain w7 r7 where sv: "save_file robot_artifacts (fst xw1) ?w6 = (w7, r7)"
            by (cases "save_file robot_artifacts (fst xw1) ?w6")
          then have a7: "actions w7 = actions w"
            using s [of "fst xw1" ?w6] a1 by (simp add: logging_info_def)
          show ?thesis
          proof (cases r7)
            case (Inl e)
            with t n Some a Inr sv a7 show ?thesis by (simp add: extract_and_report_def Let_def)
          next
            case r7: (Inr u7)
            with t n Some a Inr sv a7 show ?thesis
              by (simp add: extract_and_report_def Let_def logging_info_def)
          qed
        qed
      qed
    qed
  qed
qed

lemma date_range_actions_options:
  "length (date_range_actions start_date actual_date) = 12
   \<and> date_range_actions start_date actual_date ! 1
        = Click (li_option (two_digits (int (month start_date))))
   \<and> date_range_actions start_date actual_date ! 3 = Click (li_option ''01'')
   \<and> date_range_actions start_date actual_date ! 7
        = Click (li_option (two_digits (int (month actual_date))))
   \<and> date_range_actions start_date actual_date ! 9
        = Click (li_option (two_digits (int (day actual_date))))
   \<and> date_range_actions start_date actual_date ! 11
        = Click (li_option (two_digits (int (year actual_date) - int (year start_date) + 1)))"
  by (simp add: date_range_actions_def Let_def numeral_eq_Suc)

text \<open>
  Claim C8, as amended. For a valid current date, \<open>Month = n \<ge> 0\<close> and a browser in
  which every action succeeds and the load-more control is hidden: the task computes
  \<open>(start, now) = calculate now (n - 1)\<close>, with \<open>start\<close> in the month \<open>n - 1\<close> months
  before the current one, and after the search performs the twelve clicks of
  \<open>date_range_actions start now\<close>. Of these, the start month, the end month and the
  end day select the option whose id, class and text are the two-character string of
  \<open>start.month\<close>, \<open>now.month\<close> and \<open>now.day\<close>; the start day selects the option
  \<open>01\<close>; the end year selects the option whose id, class and text are the
  two-character string of \<open>(now.year - start.year) + 1\<close>.
\<close>

theorem date_filter_selects_computed_window:
  assumes v: "valid_datetime now"
    and m: "payload ''Month'' = Some (PInt n)" and n0: "0 \<le> n"
    and r: "nat (n - 1) \<le> month_index now"
    and c: "cooperative b" and h: "\<forall>page. is_hidden b load_more page"
  shows "\<exists>start_date w1 res rest.
           calculate now (n - 1) = Inr (start_date, now)
         \<and> month_index start_date + nat (n - 1) = month_index now
         \<and> minimal_task b robot_artifacts requests_get g payload now w = Some (w1, res)
         \<and> actions w1 = actions w @ [Goto]
              @ search_actions (str_pyval (payload_get payload ''Phrase'' (PStr ''Economy''))
                   @ '' in '' @ str_pyval (payload_get payload ''Category'' (PStr ''LatinAmerica'')))
              @ date_range_actions start_date now @ [search_click] @ rest
         \<and> date_range_actions start_date now ! 1
              = Click (li_option (two_digits (int (month start_date))))
         \<and> date_range_actions start_date now ! 3 = Click (li_option ''01'')
         \<and> date_range_actions start_date now ! 7
              = Click (li_option (two_digits (int (month now))))
         \<and> date_range_actions start_date now ! 9
              = Click (li_option (two_digits (int (day now))))
         \<and> date_range_actions start_date now ! 11
              = Click (li_option (two_digits (int (year now) - int (year start_date) + 1)))
         \<and> length (two_digits (int (month start_date))) = 2
         \<and> length (two_digits (int (month now))) = 2
         \<and> length (two_digits (int (day now))) = 2"
proof -
  let ?q = "str_pyval (payload_get payload ''Phrase'' (PStr ''Economy''))
              @ '' in '' @ str_pyval (payload_get payload ''Category'' (PStr ''LatinAmerica''))"
  let ?ph = "payload_get payload ''Phrase'' (PStr ''Economy'')"
  let ?w2 = "logging_info ''Received payload: %s'' (logging_info ''Starting minimal task.'' w)"
  let ?w3 = "logging_info ''Calculating date from %d months ago.'' ?w2"
  have a3: "actions ?w3 = actions w" by (simp add: logging_info_def)
  show ?thesis
  proof (cases "n = 0")
    case True
    have cal: "calculate now (n - 1) = Inr (now\<lparr>day := 1\<rparr>, now)"
      using True by (simp add: calculate_def)
    let ?s = "now\<lparr>day := 1\<rparr>"
    have mi: "month_index ?s + nat (n - 1) = month_index now"
      using True by (simp add: month_index_def)
    have wf: "1 \<le> month ?s \<and> month ?s \<le> 12"
      using v by (simp add: valid_datetime_def)
    from browse_cooperative [OF c h, of ?q ?s now ?w3] obtain w4 page where
      br: "browse b ?q ?s now ?w3 = Some (w4, Inr page)"
      and a4: "actions w4 = actions ?w3 @ [Goto] @ search_actions ?q
                @ date_range_actions ?s now @ [search_click]" by blast
    from extract_and_report_actions [of b robot_artifacts requests_get g ?ph page w4]
    obtain rest where
      ex: "actions (fst (extract_and_report b robot_artifacts requests_get g ?ph page w4))
           = actions w4 @ rest" by blast
    let ?res = "extract_and_report b robot_artifacts requests_get g ?ph page w4"
    have mt: "minimal_task b robot_artifacts requests_get g payload now w = Some (fst ?res, snd ?res)"
      using m n0 cal br
      by (simp add: minimal_task_def minimal_task_run_def Let_def payload_get_def)
    have l1: "length (two_digits (int (month ?s))) = 2"
      "length (two_digits (int (month now))) = 2" "length (two_digits (int (day now))) = 2"
      using v by (simp_all add: valid_datetime_def days_in_month_def length_two_digits split: if_splits)
    from cal mi mt ex a4 a3 l1 date_range_actions_options [of ?s now]
    show ?thesis by (intro exI [of _ ?s] exI [of _ "fst ?res"] exI [of _ "snd ?res"] exI [of _ rest]) simp
  next
    case False
    with n0 have n1: "0 \<le> n - 1" by simp
    from calculate_window [OF v n1] r obtain s where
      cal: "calculate now (n - 1) = Inr (s, now)" and wfs: "wf_month s"
      and mi: "month_index s + nat (n - 1) = month_index now" by blast
    from browse_cooperative [OF c h, of ?q s now ?w3] obtain w4 page where
      br: "browse b ?q s now ?w3 = Some (w4, Inr page)"
      and a4: "actions w4 = actions ?w3 @ [Goto] @ search_actions ?q
                @ date_range_actions s now @ [search_click]" by blast
    from extract_and_report_actions [of b robot_artifacts requests_get g ?ph page w4]
    obtain rest where
      ex: "actions (fst (extract_and_report b robot_artifacts requests_get g ?ph page w4))
           = actions w4 @ rest" by blast
    let ?res = "extract_and_report b robot_artifacts requests_get g ?ph page w4"
    have mt: "minimal_task b robot_artifacts requests_get g payload now w = Some (fst ?res, snd ?res)"
      using m n0 cal br
      by (simp add: minimal_task_def minimal_task_run_def Let_def payload_get_def)
    have l1: "length (two_digits (int (month s))) = 2"
      using wfs by (simp add: wf_month_def length_two_digits)
    have l2: "length (two_digits (int (month now))) = 2" "length (two_digits (int (day now))) = 2"
      using v by (simp_all add: valid_datetime_def days_in_month_def length_two_digits split: if_splits)
    from cal mi mt ex a4 a3 l1 l2 date_range_actions_options [of s now]
    show ?thesis by (intro exI [of _ s] exI [of _ "fst ?res"] exI [of _ "snd ?res"] exI [of _ rest]) simp
  qed
qed

text \<open>Facts about the run of 2025-03-15 with \<open>Month = 2\<close>, and about the counting browser.\<close>

lemma date_example:
  "valid_datetime (datetime_of 2025 3 15)"
  "nat (2 - 1) \<le> month_index (datetime_of 2025 3 15)"
  "calculate (datetime_of 2025 3 15) 1 = Inr (datetime_of 2025 2 28, datetime_of 2025 3 15)"
  by (simp_all add: date_eval)

lemma counter_browser_cooperative:
  "cooperative (counter_browser n)" "\<forall>page. is_hidden (counter_browser 0) load_more page"
  by (simp_all add: cooperative_def counter_browser_def)

text \<open>The theorem at \<open>Month = 2\<close> on 2025-03-15.\<close>

theorem date_filter_selects_computed_window_witness:
  "valid_datetime (datetime_of 2025 3 15)
   \<and> [''Month'' \<mapsto> PInt 2] ''Month'' = Some (PInt 2) \<and> (0::int) \<le> 2
   \<and> nat (2 - 1) \<le> month_index (datetime_of 2025 3 15)
   \<and> cooperative (counter_browser 0)
   \<and> (\<forall>page. is_hidden (counter_browser 0) load_more page)
   \<and> (\<exists>start_date w1 res rest.
         calculate (datetime_of 2025 3 15) (2 - 1) = Inr (start_date, datetime_of 2025 3 15)
       \<and> minimal_task (counter_browser 0) (Some ''output'') (\<lambda>u. Inl RequestException)
            source_globals [''Month'' \<mapsto> PInt 2] (datetime_of 2025 3 15) world0 = Some (w1, res)
       \<and> actions w1 = actions world0 @ [Goto] @ search_actions ''Economy in LatinAmerica''
            @ date_range_actions start_date (datetime_of 2025 3 15) @ [search_click] @ rest
       \<and> date_range_actions start_date (datetime_of 2025 3 15) ! 1
            = Click (li_option (two_digits (int (month start_date))))
       \<and> date_range_actions start_date (datetime_of 2025 3 15) ! 11
            = Click (li_option (two_digits
                (int (year (datetime_of 2025 3 15)) - int (year start_date) + 1))))"
proof -
  have p: "[''Month'' \<mapsto> PInt 2] ''Month'' = Some (PInt 2)" by simp
  have q: "str_pyval (payload_get [''Month'' \<mapsto> PInt 2] ''Phrase'' (PStr ''Economy''))
           @ '' in '' @ str_pyval (payload_get [''Month'' \<mapsto> PInt 2] ''Category'' (PStr ''LatinAmerica''))
           = ''Economy in LatinAmerica''"
    by (simp add: payload_get_def)
  have z: "(0::int) \<le> 2" by simp
  note inst = date_filter_selects_computed_window [where payload = "[''Month'' \<mapsto> PInt 2]"
      and n = 2 and now = "datetime_of 2025 3 15" and b = "counter_browser 0"
      and robot_artifacts = "Some ''output''" and requests_get = "\<lambda>u. Inl RequestException"
      and g = source_globals and w = world0]
  from inst [OF date_example(1) p z date_example(2)
      counter_browser_cooperative(1) [of 0] counter_browser_cooperative(2)]
  obtain start_date w1 res rest where
    "calculate (datetime_of 2025 3 15) (2 - 1) = Inr (start_date, datetime_of 2025 3 15)"
    "minimal_task (counter_browser 0) (Some ''output'') (\<lambda>u. Inl RequestException)
            source_globals [''Month'' \<mapsto> PInt 2] (datetime_of 2025 3 15) world0 = Some (w1, res)"
    "actions w1 = actions world0 @ [Goto] @ search_actions ''Economy in LatinAmerica''
            @ date_range_actions start_date (datetime_of 2025 3 15) @ [search_click] @ rest"
    "date_range_actions start_date (datetime_of 2025 3 15) ! 1
            = Click (li_option (two_digits (int (month start_date))))"
    "date_range_actions start_date (datetime_of 2025 3 15) ! 11
            = Click (li_option (two_digits
                (int (year (datetime_of 2025 3 15)) - int (year start_date) + 1)))"
    unfolding q by blast
  with date_example(1) date_example(2) p z counter_browser_cooperative(1) [of 0]
    counter_browser_cooperative(2)
  show ?thesis by blast
qed

text \<open>
  Claim C8 as stated fails: on 2025-03-15 with \<open>Month = 2\<close> the window starts on
  2025-02-28; the end year is selected by the option \<open>01\<close>, not by one that names
  the year \<open>2025\<close>, and the start day by the option \<open>01\<close>, not \<open>28\<close>.
\<close>

theorem date_filter_year_counterexample:
  "calculate (datetime_of 2025 3 15) 1 = Inr (datetime_of 2025 2 28, datetime_of 2025 3 15)
   \<and> str_int (int (year (datetime_of 2025 3 15))) = ''2025''
   \<and> date_range_actions (datetime_of 2025 2 28) (datetime_of 2025 3 15) ! 11
        = Click (li_option ''01'')
   \<and> li_option ''01'' \<noteq> li_option ''2025''
   \<and> li_option ''01'' \<noteq> li_id ''2025''
   \<and> two_digits (int (day (datetime_of 2025 2 28))) = ''28''
   \<and> date_range_actions (datetime_of 2025 2 28) (datetime_of 2025 3 15) ! 3
        = Click (li_option ''01'')
   \<and> li_option ''01'' \<noteq> li_option ''28''"
proof -
  have a: "str_int (int (year (datetime_of 2025 3 15))) = ''2025''"
    by code_simp
  have b: "two_digits (int (day (datetime_of 2025 2 28))) = ''28''"
    by code_simp
  have c: "two_digits (int (year (datetime_of 2025 3 15)) - int (year (datetime_of 2025 2 28)) + 1) = ''01''"
    by code_simp
  have d: "li_option ''01'' \<noteq> li_option ''2025''" "li_option ''01'' \<noteq> li_option ''28''"
    by (simp_all add: li_option_def quoted_def)
  have e: "li_option ''01'' \<noteq> li_id ''2025''"
    by (simp add: li_option_def li_id_def quoted_def)
  from date_example(3) a b c d e date_range_actions_options [of "datetime_of 2025 2 28" "datetime_of 2025 3 15"]
  show ?thesis by simp
qed

section \<open>Properties of the article loop\<close>

lemma process_article_unbound_i:
  assumes "g_i g = None"
  shows "\<exists>e. process_article robot_artifacts requests_get g phrase a xw = (xw, Inl e)"
  using assms unfolding process_article_def Let_def
  by (auto split: option.splits pyval.splits)

lemma article_loop_unbound_i:
  assumes "g_i g = None" and "articles \<noteq> []"
  shows "\<exists>e. article_loop robot_artifacts requests_get g phrase articles xw = (xw, Inl e)"
proof -
  from assms(2) obtain a rest where ar: "articles = a # rest" by (cases articles) auto
  from process_article_unbound_i [OF assms(1)] obtain e where
    "process_article robot_artifacts requests_get g phrase a xw = (xw, Inl e)" by blast
  with ar show ?thesis by simp
qed

lemma minimal_task_unbound_driver:
  assumes v: "valid_datetime now"
    and m: "payload ''Month'' = Some (PInt n)" and n0: "0 \<le> n"
    and r: "nat (n - 1) \<le> month_index now"
    and c: "cooperative b" and h: "\<forall>page. is_hidden b load_more page"
    and t: "\<forall>selector page. \<exists>txt k. inner_text b selector page = Inr txt \<and> py_int txt = Inr k"
    and g: "g_driver g = None"
  shows "\<exists>w1. minimal_task b robot_artifacts requests_get g payload now w
               = Some (w1, Inl (NameError ''driver''))
             \<and> files w1 = files w \<and> fetches w1 = fetches w"
proof -
  let ?q = "str_pyval (payload_get payload ''Phrase'' (PStr ''Economy''))
              @ '' in '' @ str_pyval (payload_get payload ''Category'' (PStr ''LatinAmerica''))"
  let ?ph = "payload_get payload ''Phrase'' (PStr ''Economy'')"
  let ?w3 = "logging_info ''Calculating date from %d months ago.''
               (logging_info ''Received payload: %s'' (logging_info ''Starting minimal task.'' w))"
  have f3: "files ?w3 = files w \<and> fetches ?w3 = fetches w" by (simp add: logging_info_def)
  have "\<exists>s. calculate now (n - 1) = Inr (s, now)"
  proof (cases "n = 0")
    case True
    then show ?thesis by (simp add: calculate_def)
  next
    case False
    with n0 have "0 \<le> n - 1" by simp
    from calculate_window [OF v this] r show ?thesis by blast
  qed
  then obtain s where cal: "calculate now (n - 1) = Inr (s, now)" by blast
  from browse_cooperative [OF c h, of ?q s now ?w3] obtain w4 page where
    br: "browse b ?q s now ?w3 = Some (w4, Inr page)"
    and f4: "files w4 = files ?w3" "fetches w4 = fetches ?w3" by blast
  from t obtain shown k where
    it: "inner_text b ''//div[@class='num-found']/span[2]/span'' page = Inr shown"
    and pi: "py_int shown = Inr k" by blast
  let ?res = "extract_and_report b robot_artifacts requests_get g ?ph page w4"
  have ex: "snd ?res = Inl (NameError ''driver'')"
    "files (fst ?res) = files w4" "fetches (fst ?res) = fetches w4"
    using it pi g
    by (simp_all add: extract_and_report_def Let_def create_headers_def logging_info_def)
  have mt: "minimal_task b robot_artifacts requests_get g payload now w = Some (fst ?res, snd ?res)"
    using m n0 cal br
    by (simp add: minimal_task_def minimal_task_run_def Let_def payload_get_def)
  from mt ex f4 f3 show ?thesis by simp
qed

text \<open>
  Claim C4 (the code differs). With the module's global names, the loop over three
  well-formed articles stops in the first iteration with \<open>NameError\<close> for \<open>i\<close>:
  no image is requested and no row is added. The whole task, with payload
  \<open>{Month: 2, Phrase: Economy, Category: Latin America}\<close>, ends earlier with
  \<open>NameError\<close> for \<open>driver\<close>, with no image request and no file.
\<close>

theorem article_loop_raises_name_error:
  "article_loop (Some ''output'') (\<lambda>u. Inr \<lparr>status_code = 200, raw = ''jpeg''\<rparr>) source_globals
     (PStr ''Economy'')
     [example_article ''Economy up'', example_article ''Markets'', example_article ''Trade'']
     (ExcelCreator ''data.xlsx'', world0)
   = ((ExcelCreator ''data.xlsx'', world0), Inl (NameError ''i''))
   \<and> fetches world0 = []
   \<and> (\<exists>w1. minimal_task (counter_browser 0) (Some ''output'')
              (\<lambda>u. Inr \<lparr>status_code = 200, raw = ''jpeg''\<rparr>) source_globals
              [''Month'' \<mapsto> PInt 2, ''Phrase'' \<mapsto> PStr ''Economy'',
               ''Category'' \<mapsto> PStr ''Latin America'']
              (datetime_of 2025 3 15) world0
            = Some (w1, Inl (NameError ''driver''))
          \<and> files w1 = Map.empty \<and> fetches w1 = [])"
proof -
  have a: "article_loop (Some ''output'') (\<lambda>u. Inr \<lparr>status_code = 200, raw = ''jpeg''\<rparr>)
     source_globals (PStr ''Economy'')
     [example_article ''Economy up'', example_article ''Markets'', example_article ''Trade'']
     (ExcelCreator ''data.xlsx'', world0)
   = ((ExcelCreator ''data.xlsx'', world0), Inl (NameError ''i''))"
    by (simp add: process_article_def example_article_def source_globals_def Let_def)
  have p: "[''Month'' \<mapsto> PInt 2, ''Phrase'' \<mapsto> PStr ''Economy'',
               ''Category'' \<mapsto> PStr ''Latin America''] ''Month'' = Some (PInt 2)"
    by simp
  have t: "\<forall>selector page. \<exists>txt k. inner_text (counter_browser 0) selector page = Inr txt
             \<and> py_int txt = Inr k"
  proof -
    have "py_int ''3'' = Inr 3" by code_simp
    then show ?thesis by (simp add: counter_browser_def)
  qed
  note inst = minimal_task_unbound_driver [where payload = "[''Month'' \<mapsto> PInt 2,
      ''Phrase'' \<mapsto> PStr ''Economy'', ''Category'' \<mapsto> PStr ''Latin America'']"
      and n = 2 and now = "datetime_of 2025 3 15" and b = "counter_browser 0"
      and robot_artifacts = "Some ''output''"
      and requests_get = "\<lambda>u. Inr \<lparr>status_code = 200, raw = ''jpeg''\<rparr>"
      and g = source_globals and w = world0]
  have b: "\<exists>w1. minimal_task (counter_browser 0) (Some ''output'')
              (\<lambda>u. Inr \<lparr>status_code = 200, raw = ''jpeg''\<rparr>) source_globals
              [''Month'' \<mapsto> PInt 2, ''Phrase'' \<mapsto> PStr ''Economy'',
               ''Category'' \<mapsto> PStr ''Latin America'']
              (datetime_of 2025 3 15) world0
            = Some (w1, Inl (NameError ''driver''))
          \<and> files w1 = files world0 \<and> fetches w1 = fetches world0"
    by (rule inst [OF date_example(1) p _ date_example(2)
          counter_browser_cooperative(1) [of 0] counter_browser_cooperative(2) t])
       (simp_all add: source_globals_def)
  from a b show ?thesis by (simp add: world0_def)
qed




end
